theory Spec2Isabelle
  imports Complex_Main "HOL-Library.Multiset"
begin

section \<open>Values\<close>

text \<open>
  The module \<^verbatim>\<open>scripts/phi/binning_routines.py\<close> works on pandas tables. Exceptions
  are values of the type \<open>error\<close>; a function that can raise returns \<open>error + 'a\<close>.
  \<open>ValueError\<close> is what Python's \<^verbatim>\<open>min\<close>/\<^verbatim>\<open>max\<close> raise on an empty sequence and what
  \<^verbatim>\<open>round\<close> raises on NaN, \<open>OverflowError\<close> is what \<^verbatim>\<open>round\<close> raises on an infinity,
  \<open>KeyError\<close> is a missing column, \<open>OptimizeError\<close> stands for anything the external
  optimiser may raise.
\<close>

datatype error = ValueError | OverflowError | KeyError | OptimizeError

text \<open>
  A float is a real number, one of the two infinities or NaN (rounding is not
  modelled). A cell of an integer column with missing values is an \<open>int option\<close>,
  \<open>None\<close> being the missing value (pandas stores it as NaN).
\<close>

datatype num = NaN | Num real | PInf | NInf

text \<open>Python's comparisons on floats: every comparison with NaN is false.\<close>

fun f_eq :: "num \<Rightarrow> num \<Rightarrow> bool" where
  "f_eq (Num a) (Num b) = (a = b)"
| "f_eq PInf PInf = True"
| "f_eq NInf NInf = True"
| "f_eq _ _ = False"

fun f_ge :: "num \<Rightarrow> num \<Rightarrow> bool" where
  "f_ge NaN _ = False"
| "f_ge _ NaN = False"
| "f_ge PInf _ = True"
| "f_ge _ NInf = True"
| "f_ge (Num a) (Num b) = (a \<ge> b)"
| "f_ge _ _ = False"

text \<open>
  The type of the cells of the column \<^verbatim>\<open>t\<close>, which pandas keeps in every selection of
  rows: \<^verbatim>\<open>int64\<close> for a column of integers, \<^verbatim>\<open>float64\<close> for a column that was read with
  missing values or holds floats. The arithmetic of numpy on two \<^verbatim>\<open>int64\<close> wraps around
  at 64 bits; on \<^verbatim>\<open>float64\<close> it does not.
\<close>

datatype dtype = Int64 | Float64

definition wrap64 :: "int \<Rightarrow> int" where
  "wrap64 x = (x + 2 ^ 63) mod 2 ^ 64 - 2 ^ 63"

text \<open>The same comparisons, and addition, on day numbers that may be missing.\<close>

fun nan_lt :: "int option \<Rightarrow> int option \<Rightarrow> bool" where
  "nan_lt (Some a) (Some b) = (a < b)"
| "nan_lt _ _ = False"

fun nan_le :: "int option \<Rightarrow> int option \<Rightarrow> bool" where
  "nan_le (Some a) (Some b) = (a \<le> b)"
| "nan_le _ _ = False"

fun nan_eq :: "int option \<Rightarrow> int option \<Rightarrow> bool" where
  "nan_eq (Some a) (Some b) = (a = b)"
| "nan_eq _ _ = False"

fun nan_add :: "int option \<Rightarrow> int \<Rightarrow> int option" where
  "nan_add (Some a) d = Some (a + d)"
| "nan_add None d = None"

section \<open>The tables\<close>

text \<open>
  A row of the input table: the day number \<^verbatim>\<open>t\<close> (may be missing), the calendar date as
  a day count (may be missing) and the mutations \<^verbatim>\<open>snvs\<close>, a string. A table (a pandas
  DataFrame) is the list of its rows, each with its index label; selecting rows by a
  mask or by position keeps the labels.
\<close>

record seq_record =
  rec_t :: "int option"
  rec_date :: "int option"
  snvs :: string

type_synonym frame = "(nat \<times> seq_record) list"

definition col_t :: "frame \<Rightarrow> int option list" where
  "col_t tab = map (\<lambda>ir. rec_t (snd ir)) tab"

definition col_snvs :: "frame \<Rightarrow> string list" where
  "col_snvs tab = map (\<lambda>ir. snvs (snd ir)) tab"

text \<open>
  The attributes of a bin, the dictionary \<^verbatim>\<open>infer_bin_attributes\<close> returns, with the key
  \<^verbatim>\<open>binning\<close> the binners add. The key \<^verbatim>\<open>t\<close> is the field \<open>bin_t\<close>.
\<close>

record bin_attrs =
  bin_t :: int
  t_sd :: num
  phi :: num
  sampleSize :: int
  num_mut :: int
  daysPerBin :: "int option"
  haplotypes :: int
  n_mut_types :: int
  binning :: string

section \<open>Library routines\<close>

text \<open>
  Python's builtin \<^verbatim>\<open>min\<close> and \<^verbatim>\<open>max\<close> over the cells of a column: the first cell is
  the candidate, a later cell replaces it when it compares smaller (greater), and an
  empty column raises. A missing cell never replaces the candidate, and a missing
  first cell is never replaced.
\<close>

fun py_min :: "int option list \<Rightarrow> error + int option" where
  "py_min [] = Inl ValueError"
| "py_min (x # xs) = Inr (fold (\<lambda>y m. if nan_lt y m then y else m) xs x)"

fun py_max :: "int option list \<Rightarrow> error + int option" where
  "py_max [] = Inl ValueError"
| "py_max (x # xs) = Inr (fold (\<lambda>y m. if nan_lt m y then y else m) xs x)"

text \<open>pandas' \<^verbatim>\<open>dropna\<close> on a column, and the column's \<^verbatim>\<open>min\<close>, \<^verbatim>\<open>max\<close>, \<^verbatim>\<open>mean\<close> and
  \<^verbatim>\<open>std\<close> (the sample standard deviation, with \<open>n - 1\<close> in the denominator), which skip
  the missing cells and are NaN when too few cells are left.\<close>

definition dropna_col :: "int option list \<Rightarrow> int list" where
  "dropna_col c = concat (map (\<lambda>x. case x of None \<Rightarrow> [] | Some v \<Rightarrow> [v]) c)"

definition series_min :: "int list \<Rightarrow> int option" where
  "series_min vs = (case vs of [] \<Rightarrow> None | v # ws \<Rightarrow> Some (fold min ws v))"

definition series_max :: "int list \<Rightarrow> int option" where
  "series_max vs = (case vs of [] \<Rightarrow> None | v # ws \<Rightarrow> Some (fold max ws v))"

definition mean_of :: "int list \<Rightarrow> real" where
  "mean_of vs = real_of_int (sum_list vs) / real (length vs)"

definition series_mean :: "int option list \<Rightarrow> num" where
  "series_mean c = (let vs = dropna_col c in if vs = [] then NaN else Num (mean_of vs))"

definition series_std :: "int option list \<Rightarrow> num" where
  "series_std c =
     (let vs = dropna_col c in
      if length vs \<le> 1 then NaN
      else Num (sqrt (sum_list (map (\<lambda>v. (real_of_int v - mean_of vs)\<^sup>2) vs)
                       / real (length vs - 1))))"

text \<open>Python's \<^verbatim>\<open>round\<close> with one argument: to the nearest integer, a tie to the even
  one; NaN and the infinities raise.\<close>

definition round_half_even :: "real \<Rightarrow> int" where
  "round_half_even x =
     (let f = \<lfloor>x\<rfloor>; r = x - of_int f in
      if r < 1/2 then f else if r > 1/2 then f + 1 else if even f then f else f + 1)"

fun py_round :: "num \<Rightarrow> error + int" where
  "py_round NaN = Inl ValueError"
| "py_round (Num x) = Inr (round_half_even x)"
| "py_round PInf = Inl OverflowError"
| "py_round NInf = Inl OverflowError"

text \<open>\<^verbatim>\<open>str.split()\<close>: the maximal runs of characters that are not white space. White
  space is what \<^verbatim>\<open>str.isspace\<close> accepts; a character here is one of the first 256.\<close>

definition is_space :: "char \<Rightarrow> bool" where
  "is_space c =
     (c \<in> set [CHR '' '', CHR 0x09, CHR 0x0A, CHR 0x0B, CHR 0x0C, CHR 0x0D,
                CHR 0x1C, CHR 0x1D, CHR 0x1E, CHR 0x1F, CHR 0x85, CHR 0xA0])"

fun split_ws :: "string \<Rightarrow> string \<Rightarrow> string list" where
  "split_ws cur [] = (if cur = [] then [] else [cur])"
| "split_ws cur (c # cs) =
     (if is_space c then (if cur = [] then split_ws [] cs else cur # split_ws [] cs)
      else split_ws (cur @ [c]) cs)"

definition str_split :: "string \<Rightarrow> string list" where
  "str_split s = split_ws [] s"

text \<open>\<^verbatim>\<open>str\<close> of an integer: its decimal digits, after a minus sign when negative.\<close>

fun str_nat :: "nat \<Rightarrow> string" where
  "str_nat n = (if n < 10 then [''0123456789'' ! n]
                else str_nat (n div 10) @ [''0123456789'' ! (n mod 10)])"

declare str_nat.simps [simp del]

definition str :: "int \<Rightarrow> string" where
  "str i = (if i < 0 then CHR ''-'' # str_nat (nat (- i)) else str_nat (nat i))"

section \<open>The estimator\<close>

text \<open>
  \<^verbatim>\<open>optim(n_haplo, n_mut)\<close>. The call
  \<^verbatim>\<open>optimize.minimize(get_phi, x0=1, method='Nelder-Mead', args=(n_haplo,n_mut))\<close> with
  \<^verbatim>\<open>.x[0]\<close> taken of its result is scipy's; it is the parameter \<open>minimize\<close>.
\<close>

definition optim :: "(num \<Rightarrow> num \<Rightarrow> error + num) \<Rightarrow> num \<Rightarrow> num \<Rightarrow> error + num" where
  "optim minimize n_haplo n_mut =
     (if f_eq n_haplo (Num 0) \<or> f_eq n_mut (Num 0) then Inr (Num 0)
      else if f_ge n_haplo n_mut then Inr NaN
      else minimize n_haplo n_mut)"

section \<open>The attributes of a bin\<close>

text \<open>
  \<^verbatim>\<open>infer_bin_attributes(subsample_table)\<close>, statement by statement; \<open>t_dtype\<close> is the
  type of the column \<^verbatim>\<open>t\<close> of the table. \<open>d\<close> is missing when the bin has no day number.
  \<^verbatim>\<open>from_t\<close> and \<^verbatim>\<open>to_t\<close> are numpy scalars, so \<^verbatim>\<open>to_t-from_t+1\<close> wraps around when the
  column is \<^verbatim>\<open>int64\<close>, and \<open>d\<close> can then be \<open>0\<close> or negative. The counts divided by \<open>d\<close>
  are floats; numpy's division by \<open>0\<close> gives an infinity, or NaN for \<open>0/0\<close>. The weight
  \<^verbatim>\<open>w\<close> the source computes is not used and not returned. \<^verbatim>\<open>round\<close> of the mean raises
  when the bin has no day number.
\<close>

definition rate :: "int \<Rightarrow> int option \<Rightarrow> num" where
  "rate n d =
     (case d of
        None \<Rightarrow> NaN
      | Some k \<Rightarrow>
          if k = 0 then (if n = 0 then NaN else if 0 < n then PInf else NInf)
          else Num (real_of_int n / real_of_int k))"

definition span :: "dtype \<Rightarrow> int option \<Rightarrow> int option \<Rightarrow> int option" where
  "span t_dtype from_t to_t =
     (case (from_t, to_t) of
        (Some a, Some b) \<Rightarrow>
          (case t_dtype of
             Int64 \<Rightarrow> Some (wrap64 (wrap64 (b - a) + 1))
           | Float64 \<Rightarrow> Some (b - a + 1))
      | _ \<Rightarrow> None)"

definition infer_bin_attributes ::
  "(num \<Rightarrow> num \<Rightarrow> error + num) \<Rightarrow> dtype \<Rightarrow> frame \<Rightarrow> error + bin_attrs" where
  "infer_bin_attributes minimize t_dtype subsample_table =
     (let from_t = series_min (dropna_col (col_t subsample_table));
          to_t = series_max (dropna_col (col_t subsample_table));
          d = span t_dtype from_t to_t;
          N_seq = int (length subsample_table);
          n_mut = N_seq - int (length (filter (\<lambda>s. s = []) (col_snvs subsample_table)));
          n_haplos = int (length (remdups (col_snvs subsample_table)));
          n_types = int (length (remdups (concat (map str_split (col_snvs subsample_table)))))
      in case py_round (series_mean (col_t subsample_table)) of
           Inl e \<Rightarrow> Inl e
         | Inr bt \<Rightarrow>
             (case optim minimize (rate n_haplos d) (rate n_mut d) of
                Inl e \<Rightarrow> Inl e
              | Inr p \<Rightarrow>
                  Inr \<lparr>bin_t = bt, t_sd = series_std (col_t subsample_table), phi = p,
                       sampleSize = N_seq, num_mut = n_mut, daysPerBin = d,
                       haplotypes = n_haplos, n_mut_types = n_types, binning = []\<rparr>))"

section \<open>More library routines\<close>

text \<open>
  numpy's \<^verbatim>\<open>searchsorted\<close> (side \<^verbatim>\<open>left\<close>) is a binary search for the first position whose
  cell is not below the key; numpy orders NaN after every number.
\<close>

fun np_lt :: "int option \<Rightarrow> int option \<Rightarrow> bool" where
  "np_lt (Some a) (Some b) = (a < b)"
| "np_lt (Some a) None = True"
| "np_lt None _ = False"

function binsearch_left :: "int option list \<Rightarrow> int option \<Rightarrow> nat \<Rightarrow> nat \<Rightarrow> nat" where
  "binsearch_left arr key min_idx max_idx =
     (if min_idx < max_idx then
        (if np_lt (arr ! (min_idx + (max_idx - min_idx) div 2)) key
         then binsearch_left arr key (min_idx + (max_idx - min_idx) div 2 + 1) max_idx
         else binsearch_left arr key min_idx (min_idx + (max_idx - min_idx) div 2))
      else min_idx)"
  by pat_completeness auto
termination
  by (relation "measure (\<lambda>(arr, key, lo, hi). hi - lo)") auto

declare binsearch_left.simps [simp del]

definition searchsorted :: "int option list \<Rightarrow> int option \<Rightarrow> nat" where
  "searchsorted arr key = binsearch_left arr key 0 (length arr)"

text \<open>\<^verbatim>\<open>tab.iloc[a:b]\<close>: Python's slice, where a negative bound counts from the end and
  every bound is clipped to the table.\<close>

definition slice_bound :: "nat \<Rightarrow> int \<Rightarrow> nat" where
  "slice_bound n i = (if i < 0 then nat (max (i + int n) 0) else min (nat i) n)"

definition iloc_slice :: "'a list \<Rightarrow> int \<Rightarrow> int \<Rightarrow> 'a list" where
  "iloc_slice xs a b =
     take (slice_bound (length xs) b - slice_bound (length xs) a)
       (drop (slice_bound (length xs) a) xs)"

text \<open>\<^verbatim>\<open>reset_index()\<close>: the rows are labelled by their positions.\<close>

definition reset_index :: "frame \<Rightarrow> frame" where
  "reset_index tab = enumerate 0 (map snd tab)"

section \<open>The binners\<close>

text \<open>
  What a binner does with a window it has selected (\<^verbatim>\<open>infer_bin_attributes\<close>, then
  \<^verbatim>\<open>update\<close> of the key \<^verbatim>\<open>binning\<close>) is the parameter \<open>row_of\<close> of its loop, so that the
  windows themselves can be observed: \<open>attrs_of\<close> is what the source does, and \<open>Inr\<close>
  hands the window back. An exception ends the loop.
\<close>

definition attrs_of ::
  "(num \<Rightarrow> num \<Rightarrow> error + num) \<Rightarrow> dtype \<Rightarrow> string \<Rightarrow> frame \<Rightarrow> error + bin_attrs" where
  "attrs_of minimize t_dtype label subsample_table =
     (case infer_bin_attributes minimize t_dtype subsample_table of
        Inl e \<Rightarrow> Inl e
      | Inr r \<Rightarrow> Inr (r\<lparr>binning := label\<rparr>))"

text \<open>
  The loop of \<^verbatim>\<open>binning_equal_days\<close>. \<open>acc\<close> is the table of the rows so far. \<open>None\<close> is
  a loop that never ends.
\<close>

partial_function (option) equal_days_loop ::
  "(frame \<Rightarrow> error + 'r) \<Rightarrow> frame \<Rightarrow> int \<Rightarrow> int option \<Rightarrow> int option \<Rightarrow> 'r list
     \<Rightarrow> (error + 'r list) option" where
  "equal_days_loop row_of tab days from_t to_t acc =
     (case py_max (col_t tab) of
        Inl e \<Rightarrow> Some (Inl e)
      | Inr mx \<Rightarrow>
          if nan_lt to_t mx then
            (if filter (\<lambda>ir. nan_le from_t (rec_t (snd ir)) \<and> nan_le (rec_t (snd ir)) to_t) tab \<noteq> []
             then
               (case row_of (filter (\<lambda>ir. nan_le from_t (rec_t (snd ir))
                                          \<and> nan_le (rec_t (snd ir)) to_t) tab) of
                  Inl e \<Rightarrow> Some (Inl e)
                | Inr r \<Rightarrow>
                    equal_days_loop row_of tab days (nan_add from_t days) (nan_add to_t days)
                      (acc @ [r]))
             else equal_days_loop row_of tab days (nan_add from_t days) (nan_add to_t days) acc)
          else Some (Inr acc))"

definition equal_days_run ::
  "(frame \<Rightarrow> error + 'r) \<Rightarrow> frame \<Rightarrow> int \<Rightarrow> (error + 'r list) option" where
  "equal_days_run row_of tab days =
     (case py_min (col_t tab) of
        Inl e \<Rightarrow> Some (Inl e)
      | Inr from_t \<Rightarrow>
          equal_days_loop row_of tab days from_t (nan_add (nan_add from_t days) (- 1)) [])"

definition binning_equal_days ::
  "(num \<Rightarrow> num \<Rightarrow> error + num) \<Rightarrow> dtype \<Rightarrow> frame \<Rightarrow> int
     \<Rightarrow> (error + bin_attrs list) option" where
  "binning_equal_days minimize t_dtype tab days =
     equal_days_run (attrs_of minimize t_dtype (''eq_days_'' @ str days)) tab days"

definition equal_days_bins :: "frame \<Rightarrow> int \<Rightarrow> (error + frame list) option" where
  "equal_days_bins tab days = equal_days_run Inr tab days"

text \<open>
  The loop of \<^verbatim>\<open>binning_equal_size\<close>. Both sides of \<^verbatim>\<open>&\<close> in its condition are evaluated,
  so \<^verbatim>\<open>max\<close> of an empty table raises whatever the other side is.
\<close>

partial_function (option) equal_size_loop ::
  "(frame \<Rightarrow> error + 'r) \<Rightarrow> frame \<Rightarrow> int \<Rightarrow> int option \<Rightarrow> int option \<Rightarrow> int \<Rightarrow> 'r list
     \<Rightarrow> (error + 'r list) option" where
  "equal_size_loop row_of tab s from_t to_t actual_index acc =
     (case py_max (col_t tab) of
        Inl e \<Rightarrow> Some (Inl e)
      | Inr mx \<Rightarrow>
          if nan_lt to_t mx \<and> actual_index + s \<le> int (length tab) then
            (case py_max (col_t (iloc_slice tab (int (searchsorted (col_t tab) from_t))
                     (min (int (searchsorted (col_t tab) from_t) + s) (int (length tab))))) of
               Inl e \<Rightarrow> Some (Inl e)
             | Inr to_t' \<Rightarrow>
                 (case row_of
                    (if nan_eq from_t to_t'
                     then filter (\<lambda>ir. nan_eq (rec_t (snd ir)) to_t') tab
                     else iloc_slice tab (int (searchsorted (col_t tab) from_t))
                            (min (int (searchsorted (col_t tab) from_t) + s) (int (length tab)))) of
                    Inl e \<Rightarrow> Some (Inl e)
                  | Inr r \<Rightarrow>
                      equal_size_loop row_of tab s (nan_add to_t' 1) to_t'
                        (int (searchsorted (col_t tab) from_t)) (acc @ [r])))
          else Some (Inr acc))"

definition equal_size_run ::
  "(frame \<Rightarrow> error + 'r) \<Rightarrow> frame \<Rightarrow> int \<Rightarrow> (error + 'r list) option" where
  "equal_size_run row_of tab s =
     equal_size_loop row_of (reset_index tab) s (Some 0) (Some 0) 0 []"

definition binning_equal_size ::
  "(num \<Rightarrow> num \<Rightarrow> error + num) \<Rightarrow> dtype \<Rightarrow> frame \<Rightarrow> int
     \<Rightarrow> (error + bin_attrs list) option" where
  "binning_equal_size minimize t_dtype tab s =
     equal_size_run (attrs_of minimize t_dtype (''eq_size_'' @ str s)) tab s"

definition equal_size_bins :: "frame \<Rightarrow> int \<Rightarrow> (error + frame list) option" where
  "equal_size_bins tab s = equal_size_run Inr tab s"

section \<open>The aggregation\<close>

text \<open>
  A row of the final table: the attributes of a bin and the date computed for it.
\<close>

record result_row =
  attrs :: bin_attrs
  date :: int

text \<open>The two \<^verbatim>\<open>for\<close> loops of \<^verbatim>\<open>calculate_phi_per_bin\<close>: the rows of each run are put
  after the rows so far.\<close>

fun concat_runs ::
  "('p \<Rightarrow> (error + 'r list) option) \<Rightarrow> 'p list \<Rightarrow> 'r list \<Rightarrow> (error + 'r list) option" where
  "concat_runs run [] acc = Some (Inr acc)"
| "concat_runs run (p # ps) acc =
     (case run p of
        None \<Rightarrow> None
      | Some (Inl e) \<Rightarrow> Some (Inl e)
      | Some (Inr rows) \<Rightarrow> concat_runs run ps (acc @ rows))"

definition concat_results ::
  "(num \<Rightarrow> num \<Rightarrow> error + num) \<Rightarrow> dtype \<Rightarrow> frame \<Rightarrow> int list \<Rightarrow> int list
     \<Rightarrow> (error + bin_attrs list) option" where
  "concat_results minimize t_dtype tab seqs_per_bin days_per_bin =
     (case concat_runs (binning_equal_days minimize t_dtype tab) days_per_bin [] of
        None \<Rightarrow> None
      | Some (Inl e) \<Rightarrow> Some (Inl e)
      | Some (Inr rows) \<Rightarrow>
          concat_runs (binning_equal_size minimize t_dtype tab) seqs_per_bin rows)"

text \<open>\<^verbatim>\<open>dropna()\<close> removes every row with a missing or NaN cell, in whatever column.\<close>

definition has_nan :: "bin_attrs \<Rightarrow> bool" where
  "has_nan r = (t_sd r = NaN \<or> phi r = NaN \<or> daysPerBin r = None)"

definition dropna :: "bin_attrs list \<Rightarrow> bin_attrs list" where
  "dropna rows = filter (\<lambda>r. \<not> has_nan r) rows"

definition with_date :: "int \<Rightarrow> bin_attrs \<Rightarrow> result_row" where
  "with_date minDate r = \<lparr>attrs = r, date = bin_t r + minDate\<rparr>"

text \<open>
  \<^verbatim>\<open>calculate_phi_per_bin(seq_info_short_table, seqs_per_bin, days_per_bin)\<close>. The sort
  \<^verbatim>\<open>sort_values(by='date')\<close> is pandas'; it is the parameter \<open>sort_values\<close>. A table
  with no row at all has no column either, and reading its column \<^verbatim>\<open>t\<close> raises.
\<close>

definition calculate_phi_per_bin ::
  "(result_row list \<Rightarrow> result_row list) \<Rightarrow> (num \<Rightarrow> num \<Rightarrow> error + num) \<Rightarrow> dtype \<Rightarrow> frame
     \<Rightarrow> int list \<Rightarrow> int list \<Rightarrow> (error + result_row list) option" where
  "calculate_phi_per_bin sort_values minimize t_dtype tab seqs_per_bin days_per_bin =
     (case series_min (dropna_col (map (\<lambda>ir. rec_date (snd ir)) tab)) of
        None \<Rightarrow> Some (Inl ValueError)
      | Some minDate \<Rightarrow>
          (case concat_results minimize t_dtype tab seqs_per_bin days_per_bin of
             None \<Rightarrow> None
           | Some (Inl e) \<Rightarrow> Some (Inl e)
           | Some (Inr rows) \<Rightarrow>
               if rows = [] then Some (Inl KeyError)
               else Some (Inr (sort_values (map (with_date minDate) (dropna rows))))))"

text \<open>
  What the module relies on of \<^verbatim>\<open>sort_values(by='date')\<close>: the rows come back in
  ascending order of their dates, none lost and none added. The call leaves the sorting
  algorithm at pandas' default \<^verbatim>\<open>kind='quicksort'\<close>, for which pandas promises no order
  among rows of equal date.
\<close>

definition sorts_by_date :: "(result_row list \<Rightarrow> result_row list) \<Rightarrow> bool" where
  "sorts_by_date srt = (\<forall>xs. mset (srt xs) = mset xs \<and> sorted (map date (srt xs)))"

section \<open>Words for the statements\<close>

text \<open>
  The rows of a table whose day number lies in the closed range from \<open>a\<close> to \<open>b\<close>: the
  selection \<^verbatim>\<open>(t >= from_t) & (t <= to_t)\<close> of \<^verbatim>\<open>binning_equal_days\<close>.
\<close>

definition window :: "frame \<Rightarrow> int \<Rightarrow> int \<Rightarrow> frame" where
  "window tab a b =
     filter (\<lambda>ir. nan_le (Some a) (rec_t (snd ir)) \<and> nan_le (rec_t (snd ir)) (Some b)) tab"

text \<open>
  A table ordered by \<^verbatim>\<open>t\<close> ascending, the rows with a missing \<^verbatim>\<open>t\<close> last (where pandas'
  and numpy's sorts put them).
\<close>

definition ordered_by_t :: "frame \<Rightarrow> bool" where
  "ordered_by_t tab = sorted_wrt (\<lambda>a b. \<not> np_lt b a) (col_t tab)"

text \<open>
  What the proofs keep of the bins of a fixed-size run that starts at position \<open>a\<close>: no
  label is in two bins, every bin is a non-empty part of the table with labels from
  \<open>a\<close> on, and every bin but the last has at least \<open>s\<close> rows.
\<close>

definition bins_from :: "frame \<Rightarrow> int \<Rightarrow> nat \<Rightarrow> frame list \<Rightarrow> bool" where
  "bins_from T s a bins =
     (distinct (concat (map (map fst) bins)) \<and>
      (\<forall>b\<in>set bins. b \<noteq> [] \<and> set b \<subseteq> set T \<and> (\<forall>i\<in>set (map fst b). a \<le> i)) \<and>
      (\<forall>b\<in>set (butlast bins). s \<le> int (length b)))"

section \<open>Example tables\<close>

text \<open>A table with default labels, given by the day number and the mutations of each
  row; the date of a row is its day number. No day number is missing, so its column
  \<^verbatim>\<open>t\<close> is \<^verbatim>\<open>int64\<close>.\<close>

definition table_of :: "(int \<times> string) list \<Rightarrow> frame" where
  "table_of ds =
     enumerate 0 (map (\<lambda>(d, s). \<lparr>rec_t = Some d, rec_date = Some d, snvs = s\<rparr>) ds)"

text \<open>An optimiser that always answers 1, and one that always raises.\<close>

definition const_minimize :: "num \<Rightarrow> num \<Rightarrow> error + num" where
  "const_minimize n_haplo n_mut = Inr (Num 1)"

definition failing_minimize :: "num \<Rightarrow> num \<Rightarrow> error + num" where
  "failing_minimize n_haplo n_mut = Inl OptimizeError"

text \<open>
  A sort within what pandas promises for its default: ascending in the date, the rows of
  equal date in the reverse of the order they came in.
\<close>

definition reversing_sort :: "result_row list \<Rightarrow> result_row list" where
  "reversing_sort xs = sort_key date (rev xs)"

section \<open>Properties of the estimator and of the attributes\<close>

lemma fold_min_le: "fold min ws (v::int) \<le> v"
proof (induction ws arbitrary: v)
  case Nil
  show ?case by simp
next
  case (Cons a ws)
  have "fold min ws (min a v) \<le> min a v" by (rule Cons.IH)
  then show ?case by simp
qed

lemma fold_max_ge: "(v::int) \<le> fold max ws v"
proof (induction ws arbitrary: v)
  case Nil
  show ?case by simp
next
  case (Cons a ws)
  have "max a v \<le> fold max ws (max a v)" by (rule Cons.IH)
  then show ?case by simp
qed

lemma fold_min_in: "fold min ws (v::int) \<in> set (v # ws)"
proof (induction ws arbitrary: v)
  case Nil
  show ?case by simp
next
  case (Cons a ws)
  have "fold min ws (min a v) \<in> set (min a v # ws)" by (rule Cons.IH)
  moreover have "min a v = a \<or> min a v = v" by (simp add: min_def)
  ultimately show ?case by auto
qed

lemma fold_max_in: "fold max ws (v::int) \<in> set (v # ws)"
proof (induction ws arbitrary: v)
  case Nil
  show ?case by simp
next
  case (Cons a ws)
  have "fold max ws (max a v) \<in> set (max a v # ws)" by (rule Cons.IH)
  moreover have "max a v = a \<or> max a v = v" by (simp add: max_def)
  ultimately show ?case by auto
qed

lemma wrap64_id:
  assumes "- (2 ^ 63) \<le> x" and "x < 2 ^ 63"
  shows "wrap64 x = x"
proof -
  have "0 \<le> x + 2 ^ 63" and "x + 2 ^ 63 < 2 ^ 64" using assms by simp_all
  then have "(x + 2 ^ 63) mod 2 ^ 64 = x + 2 ^ 63" by (rule mod_pos_pos_trivial)
  then show ?thesis by (simp add: wrap64_def)
qed

lemma span_series:
  assumes "vs \<noteq> []"
    and "t_dtype = Int64 \<longrightarrow> (\<forall>x\<in>set vs. \<forall>y\<in>set vs. y - x < 2 ^ 63 - 1)"
  shows "\<exists>k. span t_dtype (series_min vs) (series_max vs) = Some k \<and> 1 \<le> k"
proof -
  obtain v ws where vs: "vs = v # ws" using assms(1) by (cases vs) auto
  define a where "a = fold min ws v"
  define b where "b = fold max ws v"
  have le: "a \<le> b"
    unfolding a_def b_def using fold_min_le [of ws v] fold_max_ge [of v ws] by linarith
  have mem: "a \<in> set vs" "b \<in> set vs"
    unfolding a_def b_def vs by (rule fold_min_in, rule fold_max_in)
  show ?thesis
  proof (cases t_dtype)
    case Float64
    then show ?thesis
      using le by (simp add: vs span_def series_min_def series_max_def a_def b_def)
  next
    case Int64
    then have lt: "b - a < 2 ^ 63 - 1" using assms(2) mem by blast
    have w1: "wrap64 (b - a) = b - a"
      using le lt by (intro wrap64_id) simp_all
    have w2: "wrap64 (b - a + 1) = b - a + 1"
      using le lt by (intro wrap64_id) simp_all
    show ?thesis
      using le Int64 w1 w2
      by (simp add: vs span_def series_min_def series_max_def a_def b_def)
  qed
qed

lemma py_round_Inr: "py_round x = Inr b \<Longrightarrow> x \<noteq> NaN"
  by (cases x) auto

lemma series_mean_NaN: "series_mean c = NaN \<longleftrightarrow> dropna_col c = []"
  by (simp add: series_mean_def Let_def)

lemma series_std_NaN: "series_std c = NaN \<longleftrightarrow> length (dropna_col c) \<le> 1"
  by (simp add: series_std_def Let_def)

section \<open>Every row of a run is the row of a window\<close>

lemma equal_days_loop_rows:
  assumes "equal_days_loop row_of tab days from_t to_t acc = Some y"
  shows "case y of Inl e \<Rightarrow> True
         | Inr out \<Rightarrow> \<exists>rs. out = acc @ rs \<and> (\<forall>r\<in>set rs. \<exists>b. row_of b = Inr r)"
proof (rule equal_days_loop.raw_induct
    [where P = "\<lambda>row_of tab days from_t to_t acc y. case y of Inl e \<Rightarrow> True
         | Inr out \<Rightarrow> \<exists>rs. out = acc @ rs \<and> (\<forall>r\<in>set rs. \<exists>b. row_of b = Inr r)", OF _ assms],
    goal_cases)
  case (1 loop row_of tab days from_t to_t acc y)
  show ?case
  proof (cases y)
    case (Inl e)
    then show ?thesis by simp
  next
    case (Inr out)
    show ?thesis using 1(2) 1(1) unfolding Inr
      by (fastforce split: sum.splits if_splits)
  qed
qed

lemma equal_size_loop_rows:
  assumes "equal_size_loop row_of tab s from_t to_t ai acc = Some y"
  shows "case y of Inl e \<Rightarrow> True
         | Inr out \<Rightarrow> \<exists>rs. out = acc @ rs \<and> (\<forall>r\<in>set rs. \<exists>b. row_of b = Inr r)"
proof (rule equal_size_loop.raw_induct
    [where P = "\<lambda>row_of tab s from_t to_t ai acc y. case y of Inl e \<Rightarrow> True
         | Inr out \<Rightarrow> \<exists>rs. out = acc @ rs \<and> (\<forall>r\<in>set rs. \<exists>b. row_of b = Inr r)", OF _ assms],
    goal_cases)
  case (1 loop row_of tab s from_t to_t ai acc y)
  show ?case
  proof (cases y)
    case (Inl e)
    then show ?thesis by simp
  next
    case (Inr out)
    show ?thesis using 1(2) 1(1) unfolding Inr
      by (fastforce split: sum.splits if_splits)
  qed
qed

lemma concat_runs_rows:
  "concat_runs run ps acc = Some (Inr out) \<Longrightarrow>
   \<exists>rs. out = acc @ rs \<and>
     (\<forall>r\<in>set rs. \<exists>p\<in>set ps. \<exists>rows. run p = Some (Inr rows) \<and> r \<in> set rows)"
proof (induction ps arbitrary: acc)
  case Nil
  then show ?case by simp
next
  case (Cons p ps)
  then show ?case by (fastforce split: option.splits sum.splits)
qed

lemma equal_days_run_rows:
  assumes "equal_days_run row_of tab days = Some (Inr out)"
  shows "\<forall>r\<in>set out. \<exists>b. row_of b = Inr r"
proof -
  obtain from_t where
    "equal_days_loop row_of tab days from_t (nan_add (nan_add from_t days) (- 1)) []
       = Some (Inr out)"
    using assms by (auto simp: equal_days_run_def split: sum.splits)
  from equal_days_loop_rows [OF this] show ?thesis by simp
qed

lemma equal_size_run_rows:
  assumes "equal_size_run row_of tab s = Some (Inr out)"
  shows "\<forall>r\<in>set out. \<exists>b. row_of b = Inr r"
  using equal_size_loop_rows [OF assms [unfolded equal_size_run_def]] by simp

lemma concat_results_rows:
  assumes "concat_results minimize t_dtype tab seqs_per_bin days_per_bin = Some (Inr rows)"
  shows "\<forall>r\<in>set rows. \<exists>label b. attrs_of minimize t_dtype label b = Inr r"
proof -
  obtain rows1 where
    r1: "concat_runs (binning_equal_days minimize t_dtype tab) days_per_bin [] = Some (Inr rows1)"
    and r2: "concat_runs (binning_equal_size minimize t_dtype tab) seqs_per_bin rows1 = Some (Inr rows)"
    using assms by (auto simp: concat_results_def split: option.splits sum.splits)
  have a: "\<forall>r\<in>set rows1. \<exists>label b. attrs_of minimize t_dtype label b = Inr r"
    using concat_runs_rows [OF r1] equal_days_run_rows
    by (fastforce simp: binning_equal_days_def)
  obtain rs where rs: "rows = rows1 @ rs"
    and b: "\<forall>r\<in>set rs. \<exists>p\<in>set seqs_per_bin. \<exists>rows.
              binning_equal_size minimize t_dtype tab p = Some (Inr rows) \<and> r \<in> set rows"
    using concat_runs_rows [OF r2] by blast
  have "\<forall>r\<in>set rs. \<exists>label b. attrs_of minimize t_dtype label b = Inr r"
    using b equal_size_run_rows by (fastforce simp: binning_equal_size_def)
  with a rs show ?thesis by auto
qed

section \<open>The attributes of one bin\<close>

lemma length_dropna_col_le: "length (dropna_col c) \<le> length c"
  by (induction c) (auto simp: dropna_col_def split: option.splits)

lemma dropna_col_nonempty: "dropna_col c \<noteq> [] \<longleftrightarrow> (\<exists>x\<in>set c. x \<noteq> None)"
  by (induction c) (auto simp: dropna_col_def split: option.splits)

lemma infer_bin_attributes_Inr:
  assumes "infer_bin_attributes minimize t_dtype b = Inr r"
  shows "dropna_col (col_t b) \<noteq> []"
    and "t_sd r = series_std (col_t b)"
    and "sampleSize r = int (length b)"
    and "daysPerBin r
           = span t_dtype (series_min (dropna_col (col_t b)))
               (series_max (dropna_col (col_t b)))"
    and "haplotypes r = int (length (remdups (col_snvs b)))"
    and "num_mut r = int (length b) - int (length (filter (\<lambda>s. s = []) (col_snvs b)))"
    and "binning r = []"
  using assms
  by (auto simp: infer_bin_attributes_def Let_def series_mean_def split: sum.splits if_splits)

lemma optim_Inl: "optim minimize h m = Inl e \<Longrightarrow> minimize h m = Inl e"
  by (auto simp: optim_def split: if_splits)

text \<open>
  Claim C3. The estimator returns 0 when the haplotype rate or the mutation rate is 0,
  and NaN when the haplotype rate is at least the mutation rate and both are positive,
  the haplotype rate or both being possibly infinite. In both cases it returns: the
  result is \<open>Inr\<close>, whatever the optimiser would do (it is not called), also an
  optimiser that raises.
\<close>

theorem optim_guards:
  "(n_haplo = Num 0 \<or> n_mut = Num 0 \<longrightarrow> optim minimize n_haplo n_mut = Inr (Num 0)) \<and>
   (0 < m \<and> m \<le> h \<longrightarrow> optim minimize (Num h) (Num m) = Inr NaN) \<and>
   (0 < m \<longrightarrow> optim minimize PInf (Num m) = Inr NaN) \<and>
   optim minimize PInf PInf = Inr NaN"
  by (cases n_haplo; cases n_mut) (auto simp: optim_def)

theorem optim_guards_witness:
  "optim failing_minimize (Num 0) NaN = Inr (Num 0) \<and>
   optim failing_minimize (Num 3) (Num 3) = Inr NaN \<and>
   optim failing_minimize PInf (Num 3) = Inr NaN \<and>
   optim failing_minimize (Num 2) (Num 3) = Inl OptimizeError"
  using optim_guards [of "Num 0" NaN failing_minimize 3 3]
  by (simp add: optim_def failing_minimize_def)

text \<open>
  Claim C8, as the code has it. Take a bin that is not empty and has a row with a day
  number, and whose day numbers, when the column \<^verbatim>\<open>t\<close> is \<^verbatim>\<open>int64\<close>, lie less than
  \<open>2\<^sup>6\<^sup>3 - 1\<close> apart, so that \<^verbatim>\<open>to_t-from_t+1\<close> does not wrap around. The extractor either
  fails with an exception of the optimiser, or returns a row with \<open>daysPerBin \<ge> 1\<close>,
  \<open>haplotypes \<le> sampleSize\<close> and \<open>num_mut \<le> sampleSize\<close>.
\<close>

theorem infer_bin_attributes_bounds:
  assumes "subsample_table \<noteq> []"
    and "\<exists>ir\<in>set subsample_table. rec_t (snd ir) \<noteq> None"
    and "t_dtype = Int64 \<longrightarrow>
           (\<forall>x\<in>set (dropna_col (col_t subsample_table)).
              \<forall>y\<in>set (dropna_col (col_t subsample_table)). y - x < 2 ^ 63 - 1)"
  shows "case infer_bin_attributes minimize t_dtype subsample_table of
           Inl e \<Rightarrow> \<exists>h m. minimize h m = Inl e
         | Inr r \<Rightarrow> (\<exists>d. daysPerBin r = Some d \<and> 1 \<le> d) \<and> haplotypes r \<le> sampleSize r
                     \<and> num_mut r \<le> sampleSize r"
proof (cases "infer_bin_attributes minimize t_dtype subsample_table")
  case (Inl e)
  have ne: "dropna_col (col_t subsample_table) \<noteq> []"
    using assms(2) by (auto simp: dropna_col_nonempty col_t_def)
  have "\<exists>h m. optim minimize h m = Inl e"
    using Inl ne
    by (auto simp: infer_bin_attributes_def Let_def series_mean_def split: sum.splits)
  then show ?thesis using Inl optim_Inl by fastforce
next
  case (Inr r)
  note facts = infer_bin_attributes_Inr [OF Inr]
  have d: "\<exists>d. daysPerBin r = Some d \<and> 1 \<le> d"
    using span_series [OF facts(1) assms(3)] facts(4) by simp
  have h: "haplotypes r \<le> sampleSize r"
    using length_remdups_leq [of "col_snvs subsample_table"]
    by (simp add: facts(3,5) col_snvs_def)
  have m: "num_mut r \<le> sampleSize r"
    by (simp add: facts(3,6))
  show ?thesis using Inr d h m by simp
qed

theorem infer_bin_attributes_bounds_witness:
  "infer_bin_attributes const_minimize Int64
     (table_of [(0, ''a b''), (2, ''a''), (2, ''a''), (3, ''a'')])
     = Inr \<lparr>bin_t = 2, t_sd = Num (sqrt (19 / 12)), phi = Num 1, sampleSize = 4, num_mut = 4,
            daysPerBin = Some 4, haplotypes = 2, n_mut_types = 2, binning = []\<rparr>"
  using infer_bin_attributes_bounds
    [of "table_of [(0, ''a b''), (2, ''a''), (2, ''a''), (3, ''a'')]" Int64 const_minimize]
  by (simp add: infer_bin_attributes_def table_of_def col_t_def col_snvs_def dropna_col_def
      series_min_def series_max_def span_def series_mean_def mean_of_def round_half_even_def
      rate_def optim_def const_minimize_def series_std_def str_split_def is_space_def
      power2_eq_square wrap64_def)

text \<open>
  Claim C8 as stated fails on an \<^verbatim>\<open>int64\<close> column: a bin of two rows with the day numbers
  \<open>-2\<^sup>6\<^sup>3\<close> and \<open>2\<^sup>6\<^sup>3 - 1\<close> is not empty and has day numbers, \<^verbatim>\<open>to_t-from_t\<close> wraps around
  to \<open>-1\<close>, and the row the extractor returns has \<open>daysPerBin = 0\<close>. Both rates are
  infinite then, and \<open>phi\<close> is NaN.
\<close>

theorem days_per_bin_wraps_counterexample:
  "table_of [(- (2 ^ 63), ''a''), (2 ^ 63 - 1, ''b'')] \<noteq> [] \<and>
   dropna_col (col_t (table_of [(- (2 ^ 63), ''a''), (2 ^ 63 - 1, ''b'')]))
     = [- (2 ^ 63), 2 ^ 63 - 1] \<and>
   (\<exists>r. infer_bin_attributes const_minimize Int64
           (table_of [(- (2 ^ 63), ''a''), (2 ^ 63 - 1, ''b'')]) = Inr r \<and>
        daysPerBin r = Some 0 \<and> phi r = NaN \<and> sampleSize r = 2 \<and> num_mut r = 2 \<and>
        haplotypes r = 2)"
  by (simp add: infer_bin_attributes_def table_of_def col_t_def col_snvs_def dropna_col_def
      series_min_def series_max_def span_def series_mean_def mean_of_def round_half_even_def
      rate_def optim_def const_minimize_def series_std_def str_split_def is_space_def
      power2_eq_square wrap64_def Let_def)

text \<open>
  Claim C6, as the code has it. When the extractor returns a row, \<open>t_sd\<close> is NaN exactly
  when at most one row of the bin has a day number, and otherwise it is the sample
  standard deviation of the day numbers: the square root of the sum of the squared
  distances to the mean, divided by their number less one.
\<close>

theorem t_sd_sample_std:
  assumes "infer_bin_attributes minimize t_dtype subsample_table = Inr r"
  shows "(t_sd r = NaN \<longleftrightarrow> length (dropna_col (col_t subsample_table)) \<le> 1) \<and>
         (2 \<le> length (dropna_col (col_t subsample_table)) \<longrightarrow>
            t_sd r = Num (sqrt ((\<Sum>v\<leftarrow>dropna_col (col_t subsample_table).
                                   (real_of_int v - mean_of (dropna_col (col_t subsample_table)))\<^sup>2)
                                / (real (length (dropna_col (col_t subsample_table))) - 1))))"
proof -
  have sd: "t_sd r = series_std (col_t subsample_table)"
    by (rule infer_bin_attributes_Inr(2) [OF assms])
  have a: "t_sd r = NaN \<longleftrightarrow> length (dropna_col (col_t subsample_table)) \<le> 1"
    by (simp add: sd series_std_NaN)
  have b: "t_sd r = Num (sqrt ((\<Sum>v\<leftarrow>dropna_col (col_t subsample_table).
                                   (real_of_int v - mean_of (dropna_col (col_t subsample_table)))\<^sup>2)
                                / (real (length (dropna_col (col_t subsample_table))) - 1)))"
    if "2 \<le> length (dropna_col (col_t subsample_table))"
  proof -
    have "real (length (dropna_col (col_t subsample_table)) - 1)
            = real (length (dropna_col (col_t subsample_table))) - 1"
      using that by (simp add: of_nat_diff)
    then show ?thesis using that by (simp add: sd series_std_def Let_def)
  qed
  show ?thesis using a b by blast
qed

theorem t_sd_sample_std_witness:
  "infer_bin_attributes const_minimize Int64
     (table_of [(0, ''a b''), (2, ''a''), (2, ''a''), (3, ''a'')])
     = Inr \<lparr>bin_t = 2, t_sd = Num (sqrt (19 / 12)), phi = Num 1, sampleSize = 4, num_mut = 4,
            daysPerBin = Some 4, haplotypes = 2, n_mut_types = 2, binning = []\<rparr> \<and>
   Num (sqrt (19 / 12))
     = Num (sqrt ((\<Sum>v\<leftarrow>[0, 2, 2, 3]. (real_of_int v - mean_of [0, 2, 2, 3])\<^sup>2) / (4 - 1)))"
  using t_sd_sample_std [of const_minimize Int64
      "table_of [(0, ''a b''), (2, ''a''), (2, ''a''), (3, ''a'')]"
      "\<lparr>bin_t = 2, t_sd = Num (sqrt (19 / 12)), phi = Num 1, sampleSize = 4, num_mut = 4,
            daysPerBin = Some 4, haplotypes = 2, n_mut_types = 2, binning = []\<rparr>"]
  by (simp add: infer_bin_attributes_def table_of_def col_t_def col_snvs_def dropna_col_def
      series_min_def series_max_def span_def wrap64_def series_mean_def mean_of_def round_half_even_def
      rate_def optim_def const_minimize_def series_std_def str_split_def is_space_def
      power2_eq_square)

text \<open>
  Claim C6 as stated fails: a bin of two rows on the same day has one distinct day
  number, and its \<open>t_sd\<close> is 0, not NaN.
\<close>

theorem t_sd_one_day_counterexample:
  "infer_bin_attributes const_minimize Int64 (table_of [(3, ''''), (3, '''')])
     = Inr \<lparr>bin_t = 3, t_sd = Num 0, phi = Num 0, sampleSize = 2, num_mut = 0,
            daysPerBin = Some 1, haplotypes = 1, n_mut_types = 0, binning = []\<rparr> \<and>
   length (remdups (col_t (table_of [(3, ''''), (3, '''')]))) = 1"
  by (simp add: infer_bin_attributes_def table_of_def col_t_def col_snvs_def dropna_col_def
      series_min_def series_max_def span_def wrap64_def series_mean_def mean_of_def round_half_even_def
      rate_def optim_def const_minimize_def series_std_def str_split_def is_space_def
      power2_eq_square)

section \<open>The labels of the runs\<close>

lemma attrs_of_binning: "attrs_of minimize t_dtype label b = Inr r \<Longrightarrow> binning r = label"
  by (auto simp: attrs_of_def split: sum.splits)

text \<open>The definitions a run on a given table unfolds to.\<close>

lemmas run_simps = binning_equal_days_def equal_days_run_def equal_days_loop.simps
  binning_equal_size_def equal_size_run_def equal_size_loop.simps reset_index_def
  searchsorted_def iloc_slice_def slice_bound_def attrs_of_def
  infer_bin_attributes_def table_of_def col_t_def col_snvs_def dropna_col_def
  series_min_def series_max_def span_def wrap64_def series_mean_def mean_of_def round_half_even_def
  rate_def optim_def const_minimize_def series_std_def str_split_def is_space_def
  power2_eq_square str_def str_nat.simps binsearch_left.simps

lemmas aggregate_simps = calculate_phi_per_bin_def concat_results_def dropna_def has_nan_def
  with_date_def

text \<open>
  Claim C5, as the code has it. Every row of a fixed-width run with width \<open>days\<close> has
  the label \<^verbatim>\<open>eq_days_\<close> followed by the width, and every row of a fixed-size run with
  size \<open>s\<close> has the label \<^verbatim>\<open>eq_size_\<close> followed by the size.
\<close>

theorem binning_labels:
  "(binning_equal_days minimize t_dtype tab days = Some (Inr rows) \<longrightarrow>
      (\<forall>r\<in>set rows. binning r = ''eq_days_'' @ str days)) \<and>
   (binning_equal_size minimize t_dtype tab s = Some (Inr rows') \<longrightarrow>
      (\<forall>r\<in>set rows'. binning r = ''eq_size_'' @ str s))"
  using equal_days_run_rows [of "attrs_of minimize t_dtype (''eq_days_'' @ str days)" tab days rows]
    equal_size_run_rows [of "attrs_of minimize t_dtype (''eq_size_'' @ str s)" tab s rows']
  by (auto simp: binning_equal_days_def binning_equal_size_def dest: attrs_of_binning)

theorem binning_labels_witness:
  "map_option (map_sum id (map binning))
     (binning_equal_days const_minimize Int64 (table_of [(0, ''''), (1, ''''), (2, '''')]) 12)
     = Some (Inr []) \<and>
   map_option (map_sum id (map binning))
     (binning_equal_days const_minimize Int64 (table_of [(0, ''''), (1, ''''), (2, '''')]) 1)
     = Some (Inr [''eq_days_1'', ''eq_days_1'']) \<and>
   map_option (map_sum id (map binning))
     (binning_equal_size const_minimize Int64 (table_of [(0, ''''), (1, ''''), (2, '''')]) 1)
     = Some (Inr [''eq_size_1'', ''eq_size_1'', ''eq_size_1''])"
  using binning_labels [of const_minimize Int64 "table_of [(0, ''''), (1, ''''), (2, '''')]" 1 _ 1]
  by (simp add: run_simps)

text \<open>
  Claim C5 as stated fails: the labels of the rows of a run with width 1 and of a run with
  size 1 are \<^verbatim>\<open>eq_days_1\<close> and \<^verbatim>\<open>eq_size_1\<close>, not \<^verbatim>\<open>fixed-width-1\<close> and \<^verbatim>\<open>fixed-size-1\<close>.
\<close>

theorem binning_labels_counterexample:
  "map_option (map_sum id (map binning))
     (binning_equal_days const_minimize Int64 (table_of [(0, ''''), (1, ''''), (2, '''')]) 1)
     = Some (Inr [''eq_days_1'', ''eq_days_1'']) \<and>
   ''eq_days_1'' \<noteq> ''fixed-width-'' @ str 1 \<and>
   map_option (map_sum id (map binning))
     (binning_equal_size const_minimize Int64 (table_of [(0, ''''), (1, ''''), (2, '''')]) 1)
     = Some (Inr [''eq_size_1'', ''eq_size_1'', ''eq_size_1'']) \<and>
   ''eq_size_1'' \<noteq> ''fixed-size-'' @ str 1"
  by (simp add: run_simps)

section \<open>The rows that \<^verbatim>\<open>dropna\<close> removes\<close>

lemma attrs_of_single:
  assumes "attrs_of minimize t_dtype label b = Inr r" and "sampleSize r = 1"
  shows "t_sd r = NaN"
proof -
  obtain r0 where r0: "infer_bin_attributes minimize t_dtype b = Inr r0"
    and r: "r = r0\<lparr>binning := label\<rparr>"
    using assms(1) by (auto simp: attrs_of_def split: sum.splits)
  have "length b = 1"
    using assms(2) infer_bin_attributes_Inr(3) [OF r0] by (simp add: r)
  then have "length (dropna_col (col_t b)) \<le> 1"
    using length_dropna_col_le [of "col_t b"] by (simp add: col_t_def)
  then show ?thesis
    using infer_bin_attributes_Inr(2) [OF r0] by (simp add: r series_std_NaN)
qed

lemma sorts_by_date_sort_key: "sorts_by_date (sort_key date)"
  by (simp add: sorts_by_date_def)

text \<open>
  Claim C9. No row of the final table has a NaN or missing cell, in whatever column
  (the columns that can hold one are \<open>t_sd\<close>, \<open>phi\<close> and \<open>daysPerBin\<close>), and no row of
  the final table has \<open>sampleSize = 1\<close>, since \<open>t_sd\<close> is NaN for a bin of one row.
\<close>

theorem result_rows_have_no_nan:
  assumes "sorts_by_date sort_values"
    and "calculate_phi_per_bin sort_values minimize t_dtype tab seqs_per_bin days_per_bin
           = Some (Inr res)"
  shows "\<forall>row\<in>set res. t_sd (attrs row) \<noteq> NaN \<and> phi (attrs row) \<noteq> NaN
           \<and> daysPerBin (attrs row) \<noteq> None \<and> sampleSize (attrs row) \<noteq> 1"
proof
  fix row assume row: "row \<in> set res"
  obtain minDate rows where
    c: "concat_results minimize t_dtype tab seqs_per_bin days_per_bin = Some (Inr rows)"
    and res: "res = sort_values (map (with_date minDate) (dropna rows))"
    using assms(2)
    by (auto simp: calculate_phi_per_bin_def split: option.splits sum.splits if_splits)
  have "mset res = mset (map (with_date minDate) (dropna rows))"
    using assms(1) by (simp add: res sorts_by_date_def)
  then have "set res = set (map (with_date minDate) (dropna rows))"
    by (rule mset_eq_setD)
  then obtain r where r: "r \<in> set rows" "\<not> has_nan r" "row = with_date minDate r"
    using row by (auto simp: dropna_def)
  obtain label b where "attrs_of minimize t_dtype label b = Inr r"
    using concat_results_rows [OF c] r(1) by blast
  then have "sampleSize r = 1 \<Longrightarrow> t_sd r = NaN"
    by (rule attrs_of_single)
  then show "t_sd (attrs row) \<noteq> NaN \<and> phi (attrs row) \<noteq> NaN
           \<and> daysPerBin (attrs row) \<noteq> None \<and> sampleSize (attrs row) \<noteq> 1"
    using r(2,3) by (auto simp: has_nan_def with_date_def)
qed

theorem result_rows_have_no_nan_witness:
  "map_option (map_sum id (map (\<lambda>row. (sampleSize (attrs row), phi (attrs row),
        daysPerBin (attrs row), binning (attrs row), date row))))
     (calculate_phi_per_bin (sort_key date) const_minimize Int64
        (table_of [(0, ''''), (0, ''''), (1, ''''), (2, '''')]) [2] [2])
   = Some (Inr [(3, Num 0, Some 2, ''eq_days_2'', 0), (2, Num 0, Some 1, ''eq_size_2'', 0),
                (2, Num 0, Some 2, ''eq_size_2'', 2)])"
  using result_rows_have_no_nan [OF sorts_by_date_sort_key,
      of const_minimize Int64 "table_of [(0, ''''), (0, ''''), (1, ''''), (2, '''')]" "[2]" "[2]"]
  by (simp add: run_simps aggregate_simps)

text \<open>
  Claim C2 on the code. The source's comment says that the invalid estimates of \<open>phi\<close>
  are removed; \<^verbatim>\<open>dropna()\<close> removes more. With the rows of days 0 and 1 and the width 1,
  the one row of the concatenated results has \<open>phi = 0\<close>, which is not NaN, and the
  final table is empty: the row is removed for its \<open>t_sd\<close>.
\<close>

theorem dropna_drops_valid_phi:
  "concat_results const_minimize Int64 (table_of [(0, ''''), (1, '''')]) [] [1]
     = Some (Inr [\<lparr>bin_t = 0, t_sd = NaN, phi = Num 0, sampleSize = 1, num_mut = 0,
                    daysPerBin = Some 1, haplotypes = 1, n_mut_types = 0,
                    binning = ''eq_days_1''\<rparr>]) \<and>
   calculate_phi_per_bin (sort_key date) const_minimize Int64 (table_of [(0, ''''), (1, '''')]) [] [1]
     = Some (Inr [])"
  by (simp add: run_simps aggregate_simps)

section \<open>The order of the final table\<close>

lemma sorts_by_date_reversing_sort: "sorts_by_date reversing_sort"
  by (simp add: sorts_by_date_def reversing_sort_def)

lemma concat_runs_order:
  "concat_runs run ps acc = Some (Inr out) \<Longrightarrow>
   \<exists>rss. list_all2 (\<lambda>p rs. run p = Some (Inr rs)) ps rss \<and> out = acc @ concat rss"
proof (induction ps arbitrary: acc)
  case Nil
  then show ?case by simp
next
  case (Cons p ps)
  then obtain rows where p: "run p = Some (Inr rows)"
    and rest: "concat_runs run ps (acc @ rows) = Some (Inr out)"
    by (auto split: option.splits sum.splits)
  from Cons.IH [OF rest] obtain rss where
    "list_all2 (\<lambda>p rs. run p = Some (Inr rs)) ps rss" "out = (acc @ rows) @ concat rss"
    by blast
  then have "list_all2 (\<lambda>p rs. run p = Some (Inr rs)) (p # ps) (rows # rss)
      \<and> out = acc @ concat (rows # rss)"
    using p by simp
  then show ?case by blast
qed

text \<open>
  Claim C7, as the code has it. With a sort that keeps the promise of
  \<^verbatim>\<open>sort_values(by='date')\<close>, the final table is in ascending order of the date, and its
  rows are the rows that \<^verbatim>\<open>dropna\<close> keeps of the concatenated results: the rows of the
  fixed-width runs in the order of the widths, then the rows of the fixed-size runs in the
  order of the sizes. The order among rows of equal date is the sort's.
\<close>

theorem result_sorted_by_date:
  assumes "sorts_by_date sort_values"
    and "calculate_phi_per_bin sort_values minimize t_dtype tab seqs_per_bin days_per_bin
           = Some (Inr res)"
  shows "sorted (map date res) \<and>
         (\<exists>minDate by_days by_size.
            list_all2 (\<lambda>days rows. binning_equal_days minimize t_dtype tab days = Some (Inr rows))
              days_per_bin by_days \<and>
            list_all2 (\<lambda>s rows. binning_equal_size minimize t_dtype tab s = Some (Inr rows))
              seqs_per_bin by_size \<and>
            mset res
              = mset (map (with_date minDate) (dropna (concat by_days @ concat by_size))))"
proof -
  obtain minDate rows where
    c: "concat_results minimize t_dtype tab seqs_per_bin days_per_bin = Some (Inr rows)"
    and res: "res = sort_values (map (with_date minDate) (dropna rows))"
    using assms(2)
    by (auto simp: calculate_phi_per_bin_def split: option.splits sum.splits if_splits)
  obtain rows1 where
    r1: "concat_runs (binning_equal_days minimize t_dtype tab) days_per_bin [] = Some (Inr rows1)"
    and r2: "concat_runs (binning_equal_size minimize t_dtype tab) seqs_per_bin rows1 = Some (Inr rows)"
    using c by (auto simp: concat_results_def split: option.splits sum.splits)
  obtain by_days where d:
    "list_all2 (\<lambda>days rows. binning_equal_days minimize t_dtype tab days = Some (Inr rows))
       days_per_bin by_days" "rows1 = concat by_days"
    using concat_runs_order [OF r1] by auto
  obtain by_size where s:
    "list_all2 (\<lambda>s rows. binning_equal_size minimize t_dtype tab s = Some (Inr rows))
       seqs_per_bin by_size" "rows = rows1 @ concat by_size"
    using concat_runs_order [OF r2] by auto
  have "sorted (map date res)"
    using assms(1) by (simp add: res sorts_by_date_def)
  moreover have "mset res
      = mset (map (with_date minDate) (dropna (concat by_days @ concat by_size)))"
    using assms(1) d(2) s(2) by (simp add: res sorts_by_date_def)
  ultimately show ?thesis using d(1) s(1) by blast
qed

theorem result_sorted_by_date_witness:
  "map_option (map_sum id (map (\<lambda>row. (date row, binning (attrs row)))))
     (calculate_phi_per_bin (sort_key date) const_minimize Int64
        (table_of [(0, ''''), (0, ''''), (1, ''''), (2, '''')]) [2] [2])
   = Some (Inr [(0, ''eq_days_2''), (0, ''eq_size_2''), (2, ''eq_size_2'')])"
  using result_sorted_by_date [OF sorts_by_date_sort_key,
      of const_minimize Int64 "table_of [(0, ''''), (0, ''''), (1, ''''), (2, '''')]" "[2]" "[2]"]
  by (simp add: run_simps aggregate_simps)

text \<open>
  Claim C7 as stated fails: the source asks for no stable sort, and a sort that keeps
  pandas' promise can return rows of equal date in another order than they had in the
  concatenated results. Here the widths 1 to 18 each give one row, of the same date: the
  final table has 18 rows of equal date (more than numpy's quicksort sorts by insertion),
  and with the reversing sort they come out in the reverse of their order in the
  concatenated results.
\<close>

theorem unstable_sort_counterexample:
  "sorts_by_date reversing_sort \<and>
   map_option (map_sum id (map (\<lambda>r. (bin_t r, binning r))))
     (concat_results const_minimize Int64 (table_of [(0, ''''), (0, ''''), (18, '''')]) []
        [1, 2, 3, 4, 5, 6, 7, 8, 9, 10, 11, 12, 13, 14, 15, 16, 17, 18])
   = Some (Inr [(0, ''eq_days_1''), (0, ''eq_days_2''), (0, ''eq_days_3''), (0, ''eq_days_4''),
                (0, ''eq_days_5''), (0, ''eq_days_6''), (0, ''eq_days_7''), (0, ''eq_days_8''),
                (0, ''eq_days_9''), (0, ''eq_days_10''), (0, ''eq_days_11''), (0,
                ''eq_days_12''), (0, ''eq_days_13''), (0, ''eq_days_14''), (0, ''eq_days_15''),
                (0, ''eq_days_16''), (0, ''eq_days_17''), (0, ''eq_days_18'')]) \<and>
   map_option (map_sum id (map (\<lambda>row. (date row, binning (attrs row)))))
     (calculate_phi_per_bin reversing_sort const_minimize Int64
        (table_of [(0, ''''), (0, ''''), (18, '''')]) []
        [1, 2, 3, 4, 5, 6, 7, 8, 9, 10, 11, 12, 13, 14, 15, 16, 17, 18])
   = Some (Inr [(0, ''eq_days_18''), (0, ''eq_days_17''), (0, ''eq_days_16''), (0,
                ''eq_days_15''), (0, ''eq_days_14''), (0, ''eq_days_13''), (0, ''eq_days_12''),
                (0, ''eq_days_11''), (0, ''eq_days_10''), (0, ''eq_days_9''), (0,
                ''eq_days_8''), (0, ''eq_days_7''), (0, ''eq_days_6''), (0, ''eq_days_5''), (0,
                ''eq_days_4''), (0, ''eq_days_3''), (0, ''eq_days_2''), (0, ''eq_days_1'')])"
  using sorts_by_date_reversing_sort
  by (simp add: run_simps aggregate_simps reversing_sort_def)

section \<open>Minimum and maximum of a column\<close>

lemma dropna_col_simps [simp]:
  "dropna_col [] = []"
  "dropna_col (None # c) = dropna_col c"
  "dropna_col (Some v # c) = v # dropna_col c"
  by (simp_all add: dropna_col_def)

lemma fold_py_max:
  "fold (\<lambda>y m. if nan_lt m y then y else m) xs (Some x) = Some (fold max (dropna_col xs) x)"
proof (induction xs arbitrary: x)
  case Nil
  show ?case by simp
next
  case (Cons y ys)
  show ?case
  proof (cases y)
    case None
    then show ?thesis by (simp add: Cons.IH)
  next
    case (Some v)
    then show ?thesis by (simp add: Cons.IH max_def not_less)
  qed
qed

lemma fold_py_min:
  "fold (\<lambda>y m. if nan_lt y m then y else m) xs (Some x) = Some (fold min (dropna_col xs) x)"
proof (induction xs arbitrary: x)
  case Nil
  show ?case by simp
next
  case (Cons y ys)
  show ?case
  proof (cases y)
    case None
    then show ?thesis by (simp add: Cons.IH)
  next
    case (Some v)
    then show ?thesis by (simp add: Cons.IH min_def not_less) 
  qed
qed

lemma py_max_Some: "py_max (Some x # xs) = Inr (series_max (dropna_col (Some x # xs)))"
  by (simp add: fold_py_max series_max_def)

lemma py_min_Some: "py_min (Some x # xs) = Inr (series_min (dropna_col (Some x # xs)))"
  by (simp add: fold_py_min series_min_def)

section \<open>The fixed-width binner\<close>

lemma days_left_pos:
  assumes "1 \<le> (days::int)"
  shows "0 < nat ((X - u + days - 1) div days) \<longleftrightarrow> u < X"
proof -
  have "0 < (X - u + days - 1) div days \<longleftrightarrow> days \<le> X - u + days - 1"
    using assms by (intro pos_imp_zdiv_pos_iff) simp
  then show ?thesis by auto
qed

lemma days_left_step:
  assumes "1 \<le> (days::int)"
  shows "(X - (u + days) + days - 1) div days = (X - u + days - 1) div days - 1"
proof -
  define a where "a = X - u - 1"
  have 1: "(a + days) div days = a div days + 1"
    using assms by (intro div_add_self2) simp
  have 2: "X - u + days - 1 = a + days" by (simp add: a_def)
  have 3: "X - (u + days) + days - 1 = a" by (simp add: a_def)
  show ?thesis unfolding 2 3 1 by simp
qed

lemma equal_days_loop_closed:
  assumes "1 \<le> days" and "py_max (col_t tab) = Inr (Some X)"
  shows "equal_days_loop Inr tab days (Some f) (Some u) acc
     = Some (Inr (acc @ filter (\<lambda>b. b \<noteq> [])
         (map (\<lambda>k. window tab (f + int k * days) (u + int k * days))
            [0..<nat ((X - u + days - 1) div days)])))"
proof (induction "nat ((X - u + days - 1) div days)" arbitrary: f u acc)
  case (0 u f acc)
  then have "\<not> 0 < nat ((X - u + days - 1) div days)" by linarith
  then have nlt: "\<not> u < X" using days_left_pos [OF assms(1), of X u] by (simp del: zero_less_nat_eq)
  show ?case unfolding 0 [symmetric]
    by (subst equal_days_loop.simps) (simp add: assms(2) nlt)
next
  case (Suc n u f acc)
  then have "0 < nat ((X - u + days - 1) div days)" by linarith
  then have lt: "u < X" using days_left_pos [OF assms(1), of X u] by (simp del: zero_less_nat_eq)
  have n: "n = nat ((X - (u + days) + days - 1) div days)"
    using Suc(2) days_left_step [OF assms(1), of X u] by simp
  note IH = Suc(1) [OF n]
  have n2: "nat ((X - u - 1) div days) = n" using n by simp
  have upt: "map (\<lambda>k. window tab (f + int k * days) (u + int k * days)) [0..<Suc n]
     = window tab f u # map (\<lambda>k. window tab (f + days + int k * days) (u + days + int k * days)) [0..<n]"
    by (simp add: map_upt_Suc algebra_simps del: upt_Suc)
  show ?case
    unfolding Suc(2) [symmetric] upt
    by (subst equal_days_loop.simps) (simp add: assms(2) lt IH window_def n2)
qed

lemma window_count_iff:
  assumes "1 \<le> (days::int)" and "lo \<le> hi"
  shows "(lo + int k * days + days - 1 < hi) = (k < nat ((hi - lo) div days))"
proof -
  define q r where "q = (hi - lo) div days" and "r = (hi - lo) mod days"
  have eq: "hi - lo = q * days + r" by (simp add: q_def r_def)
  have r: "0 \<le> r" "r < days" using assms(1) by (simp_all add: r_def)
  have q: "0 \<le> q" using assms by (simp add: q_def pos_imp_zdiv_nonneg_iff)
  have "(lo + int k * days + days - 1 < hi) = (int k < q)"
  proof
    assume "int k < q"
    then have "int k + 1 \<le> q" by simp
    then have "(int k + 1) * days \<le> q * days"
      using assms(1) by (intro mult_right_mono) simp_all
    then have "int k * days + days \<le> q * days" by (simp add: distrib_right)
    then show "lo + int k * days + days - 1 < hi" using eq r by linarith
  next
    assume a: "lo + int k * days + days - 1 < hi"
    show "int k < q"
    proof (rule ccontr)
      assume "\<not> int k < q"
      then have "q \<le> int k" by simp
      then have "q * days \<le> int k * days"
        using assms(1) by (intro mult_right_mono) simp_all
      then show False using a eq r by linarith
    qed
  qed
  then show ?thesis using q unfolding q_def by linarith
qed

lemma trailing_le:
  assumes "1 \<le> (days::int)" and "lo \<le> hi"
  shows "lo + int (nat ((hi - lo) div days)) * days \<le> hi"
proof -
  define q r where "q = (hi - lo) div days" and "r = (hi - lo) mod days"
  have eq: "hi - lo = q * days + r" by (simp add: q_def r_def)
  have r: "0 \<le> r" using assms(1) by (simp add: r_def)
  have q: "0 \<le> q" using assms by (simp add: q_def pos_imp_zdiv_nonneg_iff)
  have "int (nat q) = q" using q by simp
  then show ?thesis using eq r unfolding q_def [symmetric] by simp
qed

lemma set_window:
  "set (window tab a b) = {ir \<in> set tab. \<exists>v. rec_t (snd ir) = Some v \<and> a \<le> v \<and> v \<le> b}"
proof -
  have "(nan_le (Some a) x \<and> nan_le x (Some b)) = (\<exists>v. x = Some v \<and> a \<le> v \<and> v \<le> b)" for x
    by (cases x) simp_all
  then show ?thesis by (auto simp: window_def)
qed

lemma concat_filter_nonempty: "concat (filter (\<lambda>b. b \<noteq> []) xs) = concat xs"
  by (induction xs) simp_all

lemma set_windows:
  assumes "1 \<le> days"
  shows "set (concat (map (\<lambda>k. window tab (lo + int k * days) (lo + int k * days + days - 1)) [0..<n]))
     = {ir \<in> set tab. \<exists>v. rec_t (snd ir) = Some v \<and> lo \<le> v \<and> v < lo + int n * days}"
proof (induction n)
  case 0
  show ?case by auto
next
  case (Suc n)
  have e: "int (Suc n) * days = int n * days + days" by (simp add: distrib_right)
  have p: "0 \<le> int n * days" using assms by simp
  have "set (concat (map (\<lambda>k. window tab (lo + int k * days) (lo + int k * days + days - 1)) [0..<Suc n]))
     = {ir \<in> set tab. \<exists>v. rec_t (snd ir) = Some v \<and> lo \<le> v \<and> v < lo + int n * days}
       \<union> {ir \<in> set tab. \<exists>v. rec_t (snd ir) = Some v \<and> lo + int n * days \<le> v
                   \<and> v \<le> lo + int n * days + days - 1}"
    using Suc.IH by (simp add: set_window)
  also have "\<dots> = {ir \<in> set tab. \<exists>v. rec_t (snd ir) = Some v \<and> lo \<le> v
                   \<and> v < lo + int (Suc n) * days}"
  proof -
    define m where "m = int n * days"
    have "0 \<le> m" using p by (simp only: m_def)
    then show ?thesis unfolding e m_def [symmetric] using assms by auto
  qed
  finally show ?case .
qed

lemma distinct_windows:
  assumes "1 \<le> days" and "distinct tab"
  shows "distinct (concat (map (\<lambda>k. window tab (lo + int k * days) (lo + int k * days + days - 1)) [0..<n]))"
proof (induction n)
  case 0
  show ?case by simp
next
  case (Suc n)
  have d: "distinct (window tab (lo + int n * days) (lo + int n * days + days - 1))"
    using assms(2) by (simp add: window_def)
  have "set (concat (map (\<lambda>k. window tab (lo + int k * days) (lo + int k * days + days - 1)) [0..<n]))
      \<inter> set (window tab (lo + int n * days) (lo + int n * days + days - 1)) = {}"
    unfolding set_windows [OF assms(1)] set_window by auto
  then show ?case using Suc.IH d by simp
qed

lemma series_min_le:
  assumes "series_min vs = Some lo" and "v \<in> set vs"
  shows "lo \<le> v"
proof -
  obtain w ws where vs: "vs = w # ws" using assms(2) by (cases vs) auto
  have "lo = Min (set (w # ws))"
    using assms(1) Min.set_eq_fold [of w ws] by (simp add: vs series_min_def)
  then show ?thesis using assms(2) by (simp add: vs)
qed

lemma series_max_in:
  assumes "series_max vs = Some hi"
  shows "hi \<in> set vs"
proof -
  obtain w ws where vs: "vs = w # ws" using assms by (cases vs) (auto simp: series_max_def)
  have "hi = Max (set (w # ws))"
    using assms Max.set_eq_fold [of w ws] by (simp add: vs series_max_def)
  then have "hi \<in> set (w # ws)" using Max_in [of "set (w # ws)"] by simp
  then show ?thesis by (simp add: vs)
qed

lemma set_dropna_col: "v \<in> set (dropna_col c) \<longleftrightarrow> Some v \<in> set c"
  by (induction c) (auto simp: dropna_col_def split: option.splits)

lemma ordered_hd_Some:
  assumes "ordered_by_t tab" and "\<exists>ir\<in>set tab. rec_t (snd ir) \<noteq> None"
  shows "\<exists>x xs. col_t tab = Some x # xs"
proof (cases "col_t tab")
  case Nil
  then show ?thesis using assms(2) by (simp add: col_t_def)
next
  case (Cons y ys)
  show ?thesis
  proof (cases y)
    case (Some x)
    then show ?thesis using Cons by simp
  next
    case None
    have "\<forall>z\<in>set ys. \<not> np_lt z None"
      using assms(1) by (simp add: ordered_by_t_def Cons None)
    then have "\<forall>z\<in>set ys. z = None"
      by (metis np_lt.simps(2) option.exhaust)
    then have "\<forall>z\<in>set (col_t tab). z = None" by (simp add: Cons None)
    then show ?thesis using assms(2) by (auto simp: col_t_def)
  qed
qed

lemma equal_days_bins_closed:
  assumes "1 \<le> days" and "col_t tab = Some x # xs"
    and "series_min (dropna_col (col_t tab)) = Some lo"
    and "series_max (dropna_col (col_t tab)) = Some hi"
  shows "equal_days_bins tab days
     = Some (Inr (filter (\<lambda>b. b \<noteq> [])
         (map (\<lambda>k. window tab (lo + int k * days) (lo + int k * days + days - 1))
            [0..<nat ((hi - lo) div days)])))"
proof -
  have mn: "py_min (col_t tab) = Inr (Some lo)"
    using py_min_Some [of x xs] assms(2,3) by simp
  have mx: "py_max (col_t tab) = Inr (Some hi)"
    using py_max_Some [of x xs] assms(2,4) by simp
  have a: "hi - (lo + days - 1) + days - 1 = hi - lo" by simp
  have b: "lo + days - 1 + int k * days = lo + int k * days + days - 1" for k by simp
  show ?thesis
    using equal_days_loop_closed [OF assms(1) mx, of lo "lo + days - 1" "[]"]
    unfolding a b
    by (simp add: equal_days_bins_def equal_days_run_def mn)
qed

text \<open>
  Claim C1, as the code has it. For a table ordered by \<^verbatim>\<open>t\<close> with a row that has a day
  number, with distinct labels, and a width of at least 1, the binner returns. With \<open>lo\<close>
  and \<open>hi\<close> the least and the greatest day number, its bins are the windows
  \<open>[lo + k * days, lo + k * days + days - 1]\<close> that are not empty, for the \<open>k\<close> below
  \<open>(hi - lo) div days\<close>, in this order; these are the windows whose upper bound is below
  \<open>hi\<close>. No row is in two bins. A row is in a bin exactly when it has a day number
  below the lower bound of the first window that is not processed, and \<open>hi\<close> is not
  below it: the window that reaches the greatest day number is not processed, and its
  rows are in no bin.
\<close>

theorem equal_days_bins_cover:
  assumes "1 \<le> days" and "ordered_by_t tab"
    and "\<exists>ir\<in>set tab. rec_t (snd ir) \<noteq> None" and "distinct (map fst tab)"
    and "series_min (dropna_col (col_t tab)) = Some lo"
    and "series_max (dropna_col (col_t tab)) = Some hi"
  shows "\<exists>bins.
     equal_days_bins tab days = Some (Inr bins) \<and>
     bins = filter (\<lambda>b. b \<noteq> [])
       (map (\<lambda>k. window tab (lo + int k * days) (lo + int k * days + days - 1))
          [0..<nat ((hi - lo) div days)]) \<and>
     (\<forall>k. (k < nat ((hi - lo) div days)) = (lo + int k * days + days - 1 < hi)) \<and>
     distinct (concat bins) \<and>
     (\<forall>ir\<in>set tab. (ir \<in> set (concat bins))
        = (\<exists>v. rec_t (snd ir) = Some v \<and> v < lo + int (nat ((hi - lo) div days)) * days)) \<and>
     lo + int (nat ((hi - lo) div days)) * days \<le> hi"
proof -
  obtain x xs where c: "col_t tab = Some x # xs"
    using ordered_hd_Some [OF assms(2,3)] by blast
  let ?n = "nat ((hi - lo) div days)"
  let ?bins = "filter (\<lambda>b. b \<noteq> [])
       (map (\<lambda>k. window tab (lo + int k * days) (lo + int k * days + days - 1)) [0..<?n])"
  have run: "equal_days_bins tab days = Some (Inr ?bins)"
    by (rule equal_days_bins_closed [OF assms(1) c assms(5,6)])
  have le: "lo \<le> v" if "ir \<in> set tab" "rec_t (snd ir) = Some v" for ir v
  proof -
    have "Some v \<in> set (col_t tab)" using that by (force simp: col_t_def)
    then show ?thesis using series_min_le [OF assms(5)] by (simp add: set_dropna_col)
  qed
  have "Some hi \<in> set (col_t tab)"
    using series_max_in [OF assms(6)] by (simp add: set_dropna_col)
  then have lohi: "lo \<le> hi" using le by (auto simp: col_t_def)
  have cnt: "\<forall>k. (k < ?n) = (lo + int k * days + days - 1 < hi)"
    using window_count_iff [OF assms(1) lohi] by simp
  have dt: "distinct tab" using assms(4) by (simp add: distinct_map)
  have cc: "concat ?bins
      = concat (map (\<lambda>k. window tab (lo + int k * days) (lo + int k * days + days - 1)) [0..<?n])"
    by (rule concat_filter_nonempty)
  have di: "distinct (concat ?bins)"
    unfolding cc by (rule distinct_windows [OF assms(1) dt])
  have cov: "\<forall>ir\<in>set tab. (ir \<in> set (concat ?bins))
        = (\<exists>v. rec_t (snd ir) = Some v \<and> v < lo + int ?n * days)"
    unfolding cc set_windows [OF assms(1)] using le by auto
  show ?thesis
    using run cnt di cov trailing_le [OF assms(1) lohi] by blast
qed

theorem equal_days_bins_cover_witness:
  "equal_days_bins (table_of [(0, ''''), (1, ''a''), (3, ''''), (4, ''''), (5, ''a'')]) 2
     = Some (Inr [[(0, \<lparr>rec_t = Some 0, rec_date = Some 0, snvs = ''''\<rparr>),
                   (1, \<lparr>rec_t = Some 1, rec_date = Some 1, snvs = ''a''\<rparr>)],
                  [(2, \<lparr>rec_t = Some 3, rec_date = Some 3, snvs = ''''\<rparr>)]]) \<and>
   distinct (concat [[(0::nat, \<lparr>rec_t = Some 0, rec_date = Some 0, snvs = ''''\<rparr>),
                   (1, \<lparr>rec_t = Some 1, rec_date = Some 1, snvs = ''a''\<rparr>)],
                  [(2, \<lparr>rec_t = Some 3, rec_date = Some 3, snvs = ''''\<rparr>)]])"
proof -
  let ?T = "table_of [(0, ''''), (1, ''a''), (3, ''''), (4, ''''), (5, ''a'')]"
  have h1: "(1::int) \<le> 2" by simp
  have h2: "ordered_by_t ?T" by (simp add: ordered_by_t_def table_of_def col_t_def)
  have h3: "\<exists>ir\<in>set ?T. rec_t (snd ir) \<noteq> None" by (simp add: table_of_def)
  have h4: "distinct (map fst ?T)" by (simp add: table_of_def)
  have h5: "series_min (dropna_col (col_t ?T)) = Some 0"
    by (simp add: table_of_def col_t_def series_min_def)
  have h6: "series_max (dropna_col (col_t ?T)) = Some 5"
    by (simp add: table_of_def col_t_def series_max_def)
  have e: "equal_days_bins ?T 2
     = Some (Inr [[(0, \<lparr>rec_t = Some 0, rec_date = Some 0, snvs = ''''\<rparr>),
                   (1, \<lparr>rec_t = Some 1, rec_date = Some 1, snvs = ''a''\<rparr>)],
                  [(2, \<lparr>rec_t = Some 3, rec_date = Some 3, snvs = ''''\<rparr>)]])"
    by (simp add: equal_days_bins_def run_simps)
  from equal_days_bins_cover [OF h1 h2 h3 h4 h5 h6] obtain bins where
    "equal_days_bins ?T 2 = Some (Inr bins)" and "distinct (concat bins)" by blast
  with e show ?thesis by simp
qed

text \<open>
  Claim C1 as stated fails. With the rows of days 0 and 1 and the width 1, the loop
  ends before the window \<open>[1, 1]\<close>, whose upper bound reaches the greatest day number:
  the only bin is the row of day 0, and the row of day 1, which has a day number, is in no
  bin.
\<close>

theorem equal_days_bins_counterexample:
  "equal_days_bins (table_of [(0, ''''), (1, '''')]) 1
     = Some (Inr [[(0, \<lparr>rec_t = Some 0, rec_date = Some 0, snvs = ''''\<rparr>)]]) \<and>
   ordered_by_t (table_of [(0, ''''), (1, '''')]) \<and>
   (1, \<lparr>rec_t = Some 1, rec_date = Some 1, snvs = ''''\<rparr>)
     \<in> set (table_of [(0, ''''), (1, '''')]) \<and>
   (1, \<lparr>rec_t = Some 1, rec_date = Some 1, snvs = ''''\<rparr>)
     \<notin> set (concat [[(0, \<lparr>rec_t = Some 0, rec_date = Some 0, snvs = ''''\<rparr>)]]) \<and>
   py_max (col_t (table_of [(0, ''''), (1, '''')])) = Inr (Some 1)"
  by (simp add: equal_days_bins_def run_simps ordered_by_t_def)

section \<open>The fixed-size binner\<close>

lemma np_lt_Some_iff: "np_lt x (Some f) \<longleftrightarrow> (\<exists>v. x = Some v \<and> v < f)"
  by (cases x) simp_all

lemma np_le_lt_trans: "\<not> np_lt b a \<Longrightarrow> np_lt b c \<Longrightarrow> np_lt a c"
  by (cases a; cases b; cases c) simp_all

lemma np_le_trans: "\<not> np_lt b a \<Longrightarrow> \<not> np_lt c b \<Longrightarrow> \<not> np_lt c a"
  by (cases a; cases b; cases c) simp_all

lemma binsearch_left_done: "\<not> lo < hi \<Longrightarrow> binsearch_left arr key lo hi = lo"
  by (subst binsearch_left.simps) simp

lemma binsearch_left_right:
  "lo < hi \<Longrightarrow> np_lt (arr ! (lo + (hi - lo) div 2)) key \<Longrightarrow>
   binsearch_left arr key lo hi = binsearch_left arr key (lo + (hi - lo) div 2 + 1) hi"
  by (subst binsearch_left.simps) simp

lemma binsearch_left_left:
  "lo < hi \<Longrightarrow> \<not> np_lt (arr ! (lo + (hi - lo) div 2)) key \<Longrightarrow>
   binsearch_left arr key lo hi = binsearch_left arr key lo (lo + (hi - lo) div 2)"
  by (subst binsearch_left.simps) simp

lemma binsearch_left_sorted:
  "sorted_wrt (\<lambda>a b. \<not> np_lt b a) arr \<Longrightarrow> lo \<le> hi \<Longrightarrow> hi \<le> length arr \<Longrightarrow>
     \<forall>i<lo. np_lt (arr ! i) key \<Longrightarrow>
     \<forall>i. hi \<le> i \<and> i < length arr \<longrightarrow> \<not> np_lt (arr ! i) key \<Longrightarrow>
     lo \<le> binsearch_left arr key lo hi \<and> binsearch_left arr key lo hi \<le> hi \<and>
     (\<forall>i<binsearch_left arr key lo hi. np_lt (arr ! i) key) \<and>
     (\<forall>i. binsearch_left arr key lo hi \<le> i \<and> i < length arr \<longrightarrow> \<not> np_lt (arr ! i) key)"
proof (induction arr key lo hi rule: binsearch_left.induct)
  case (1 arr key lo hi)
  note sorted = "1.prems"(1)
  show ?case
  proof (cases "lo < hi")
    case False
    then have "lo = hi" using "1.prems"(2) by simp
    moreover have "binsearch_left arr key lo hi = lo" by (rule binsearch_left_done [OF False])
    ultimately show ?thesis using "1.prems"(4,5) by simp
  next
    case True
    define mid where "mid = lo + (hi - lo) div 2"
    have mid: "lo \<le> mid" "mid < hi" "mid < length arr"
      using True "1.prems"(3) by (auto simp: mid_def)
    show ?thesis
    proof (cases "np_lt (arr ! mid) key")
      case lt: True
      have below: "\<forall>i<mid + 1. np_lt (arr ! i) key"
      proof (intro allI impI)
        fix i assume i: "i < mid + 1"
        show "np_lt (arr ! i) key"
        proof (cases "i = mid")
          case True
          then show ?thesis using lt by simp
        next
          case False
          then have "i < mid" using i by simp
          then have "\<not> np_lt (arr ! mid) (arr ! i)"
            using sorted_wrt_nth_less [OF sorted _ mid(3), of i] by simp
          then show ?thesis using lt by (rule np_le_lt_trans)
        qed
      qed
      have le: "mid + 1 \<le> hi" using mid(2) by simp
      have eq: "binsearch_left arr key lo hi = binsearch_left arr key (mid + 1) hi"
        using binsearch_left_right [OF True] lt by (simp only: mid_def)
      have IH: "mid + 1 \<le> binsearch_left arr key (mid + 1) hi \<and>
          binsearch_left arr key (mid + 1) hi \<le> hi \<and>
          (\<forall>i<binsearch_left arr key (mid + 1) hi. np_lt (arr ! i) key) \<and>
          (\<forall>i. binsearch_left arr key (mid + 1) hi \<le> i \<and> i < length arr
               \<longrightarrow> \<not> np_lt (arr ! i) key)"
        using "1.IH"(1) [OF True _ sorted _ "1.prems"(3) _ "1.prems"(5)] lt le below
        unfolding mid_def by (elim meta_impE) assumption+
      have "lo \<le> binsearch_left arr key (mid + 1) hi" using IH mid(1) by linarith
      then show ?thesis unfolding eq using IH by blast
    next
      case ge: False
      have above: "\<forall>i. mid \<le> i \<and> i < length arr \<longrightarrow> \<not> np_lt (arr ! i) key"
      proof (intro allI impI)
        fix i assume i: "mid \<le> i \<and> i < length arr"
        show "\<not> np_lt (arr ! i) key"
        proof (cases "i = mid")
          case True
          then show ?thesis using ge by simp
        next
          case False
          then have "mid < i" using i by simp
          then have "\<not> np_lt (arr ! i) (arr ! mid)"
            using sorted_wrt_nth_less [OF sorted, of mid i] i by simp
          with ge show ?thesis by (rule np_le_trans)
        qed
      qed
      have le: "mid \<le> length arr" using mid(3) by simp
      have eq: "binsearch_left arr key lo hi = binsearch_left arr key lo mid"
        using binsearch_left_left [OF True] ge by (simp only: mid_def)
      have IH: "lo \<le> binsearch_left arr key lo mid \<and>
          binsearch_left arr key lo mid \<le> mid \<and>
          (\<forall>i<binsearch_left arr key lo mid. np_lt (arr ! i) key) \<and>
          (\<forall>i. binsearch_left arr key lo mid \<le> i \<and> i < length arr
               \<longrightarrow> \<not> np_lt (arr ! i) key)"
        using "1.IH"(2) [OF True _ sorted _ _ "1.prems"(4)] ge mid(1) le above
        unfolding mid_def by (elim meta_impE) assumption+
      have "binsearch_left arr key lo mid \<le> hi" using IH mid(2) by linarith
      then show ?thesis unfolding eq using IH by blast
    qed
  qed
qed

lemma searchsorted_sorted:
  assumes "sorted_wrt (\<lambda>a b. \<not> np_lt b a) arr"
  shows "searchsorted arr key \<le> length arr"
    and "\<forall>i<searchsorted arr key. np_lt (arr ! i) key"
    and "\<forall>i. searchsorted arr key \<le> i \<and> i < length arr \<longrightarrow> \<not> np_lt (arr ! i) key"
proof -
  have a: "(0::nat) \<le> length arr" by simp
  have b: "length arr \<le> length arr" by simp
  have c: "\<forall>i<(0::nat). np_lt (arr ! i) key" by simp
  have d: "\<forall>i. length arr \<le> i \<and> i < length arr \<longrightarrow> \<not> np_lt (arr ! i) key" by auto
  note r = binsearch_left_sorted [OF assms a b c d, folded searchsorted_def]
  show "searchsorted arr key \<le> length arr" using r by blast
  show "\<forall>i<searchsorted arr key. np_lt (arr ! i) key" using r by blast
  show "\<forall>i. searchsorted arr key \<le> i \<and> i < length arr \<longrightarrow> \<not> np_lt (arr ! i) key"
    using r by blast
qed

lemma py_max_None: "py_max (None # xs) = Inr None"
proof -
  have "fold (\<lambda>y m. if nan_lt m y then y else m) xs None = None"
    by (induction xs) simp_all
  then show ?thesis by simp
qed

lemma col_t_reset_index: "col_t (reset_index tab) = col_t tab"
proof -
  have a: "map (\<lambda>ir. rec_t (snd ir)) xs = map rec_t (map snd xs)" for xs :: frame
    by (simp add: comp_def)
  show ?thesis unfolding col_t_def reset_index_def a by (simp only: map_snd_enumerate)
qed

lemma labels_reset_index: "map fst (reset_index tab) = [0..<length tab]"
  by (simp add: reset_index_def)

lemma length_reset_index: "length (reset_index tab) = length tab"
  by (simp add: reset_index_def)

lemma labelled_nth:
  assumes "map fst T = [0..<length T]" and "i < length T"
  shows "fst (T ! i) = i"
proof -
  have "map fst T ! i = i" using assms by simp
  then show ?thesis using assms(2) by simp
qed

lemma labelled_mem:
  assumes "map fst T = [0..<length T]" and "ir \<in> set T"
  shows "fst ir < length T \<and> T ! fst ir = ir"
proof -
  obtain i where i: "i < length T" "T ! i = ir"
    using assms(2) by (auto simp: in_set_conv_nth)
  then have "fst ir = i" using labelled_nth [OF assms(1) i(1)] by simp
  then show ?thesis using i by simp
qed

lemma col_t_nth: "i < length T \<Longrightarrow> col_t T ! i = rec_t (snd (T ! i))"
  by (simp add: col_t_def)

lemma slice_bound_nat: "slice_bound n (int a) = min a n"
  by (simp add: slice_bound_def)

lemma labels_take_drop:
  assumes "map fst T = [0..<length T]"
  shows "map fst (take k (drop a T)) = [a..<min (a + k) (length T)]"
proof -
  have "map fst (take k (drop a T)) = take k (drop a (map fst T))"
    by (simp only: take_map drop_map)
  also have "\<dots> = take k (drop a [0..<length T])"
    by (subst assms) (rule refl)
  also have "\<dots> = take k [a..<length T]"
    by (simp only: drop_upt add_0)
  also have "\<dots> = [a..<min (a + k) (length T)]"
  proof (cases "a + k \<le> length T")
    case True
    then show ?thesis by (simp add: min_def)
  next
    case False
    then have "length [a..<length T] \<le> k" by simp
    then have "take k [a..<length T] = [a..<length T]" by (rule take_all)
    then show ?thesis using False by (simp add: min_def)
  qed
  finally show ?thesis .
qed

lemma py_max_sub:
  assumes "col_t b = Some v0 # rest"
  shows "\<exists>M. py_max (col_t b) = Inr (Some M) \<and> v0 \<le> M \<and> Some M \<in> set (col_t b)
           \<and> (\<forall>v. Some v \<in> set (col_t b) \<longrightarrow> v \<le> M)"
proof -
  let ?vs = "dropna_col (col_t b)"
  have vs: "?vs = v0 # dropna_col rest" by (simp add: assms)
  define M where "M = fold max (dropna_col rest) v0"
  have pm: "py_max (col_t b) = Inr (Some M)"
    using py_max_Some [of v0 rest] by (simp add: assms series_max_def M_def)
  have M: "M = Max (set ?vs)"
    using Max.set_eq_fold [of v0 "dropna_col rest"] by (simp add: vs M_def)
  have "M \<in> set ?vs" unfolding M using Max_in [of "set ?vs"] by (simp add: vs)
  then have in_col: "Some M \<in> set (col_t b)" by (simp add: set_dropna_col)
  have ub: "v \<le> M" if "Some v \<in> set (col_t b)" for v
  proof -
    have "v \<in> set ?vs" using that by (simp add: set_dropna_col)
    then show ?thesis unfolding M by simp
  qed
  have "v0 \<le> M" using ub [of v0] by (simp add: assms)
  then show ?thesis using pm in_col ub by blast
qed

lemma take_min_length: "take (min m (length xs)) xs = take m xs"
  by (cases "m \<le> length xs") (simp_all add: min_def)

lemma iloc_slice_from:
  assumes "a \<le> length T"
  shows "\<exists>k. iloc_slice T (int a) (min (int a + s) (int (length T))) = take k (drop a T)
           \<and> a + k \<le> length T
           \<and> (1 \<le> s \<and> a < length T \<longrightarrow> 1 \<le> k)
           \<and> (a + k < length T \<longrightarrow> s \<le> int k)"
proof -
  let ?n = "length T"
  let ?b = "min (int a + s) (int ?n)"
  define k where "k = min (slice_bound ?n ?b - a) (?n - a)"
  have sa: "slice_bound ?n (int a) = a" using assms by (simp add: slice_bound_nat)
  have "iloc_slice T (int a) ?b = take (slice_bound ?n ?b - a) (drop a T)"
    by (simp add: iloc_slice_def sa)
  also have "\<dots> = take k (drop a T)"
    using take_min_length [of "slice_bound ?n ?b - a" "drop a T"] by (simp add: k_def)
  finally have 1: "iloc_slice T (int a) ?b = take k (drop a T)" .
  have 2: "a + k \<le> ?n" using assms by (simp add: k_def)
  have sb: "slice_bound ?n ?b = min (a + nat s) ?n" if "1 \<le> s"
    using that by (simp add: slice_bound_def min_def) linarith
  have 3: "1 \<le> k" if "1 \<le> s" "a < ?n"
    using that unfolding k_def sb [OF that(1)] by arith
  have 4: "s \<le> int k" if "a + k < ?n"
  proof (cases "1 \<le> s")
    case False
    then show ?thesis by simp
  next
    case True
    show ?thesis using that True unfolding k_def sb [OF True] by arith
  qed
  show ?thesis using 1 2 3 4 by blast
qed

lemma start_position:
  assumes ord: "sorted_wrt (\<lambda>a b. \<not> np_lt b a) (col_t T)"
    and j: "j < length T" "col_t T ! j = Some X"
    and fX: "f \<le> X"
  shows "searchsorted (col_t T) (Some f) \<le> j"
    and "\<exists>v0. col_t T ! searchsorted (col_t T) (Some f) = Some v0 \<and> f \<le> v0"
proof -
  let ?ts = "col_t T"
  let ?a = "searchsorted ?ts (Some f)"
  have len: "length ?ts = length T" by (simp add: col_t_def)
  note ss = searchsorted_sorted [OF ord, of "Some f"]
  show aj: "?a \<le> j"
  proof (rule ccontr)
    assume "\<not> ?a \<le> j"
    then have "np_lt (?ts ! j) (Some f)" using ss(2) by simp
    then show False using j(2) fX by simp
  qed
  have nlt: "\<not> np_lt (?ts ! ?a) (Some f)" using ss(3) aj j(1) len by simp
  show "\<exists>v0. ?ts ! ?a = Some v0 \<and> f \<le> v0"
  proof (cases "?ts ! ?a")
    case (Some v0)
    then show ?thesis using nlt by simp
  next
    case None
    have "?a \<noteq> j" using None j(2) by auto
    then have "?a < j" using aj by simp
    then have "\<not> np_lt (?ts ! j) (?ts ! ?a)"
      using sorted_wrt_nth_less [OF ord, of ?a j] j(1) len by simp
    then show ?thesis using None j(2) by simp
  qed
qed

lemma below_next:
  assumes ord: "sorted_wrt (\<lambda>a b. \<not> np_lt b a) (col_t T)"
    and "i < length T" and "col_t T ! i = Some v" and "v \<le> M"
  shows "i < searchsorted (col_t T) (Some (M + 1))"
proof (rule ccontr)
  assume "\<not> i < searchsorted (col_t T) (Some (M + 1))"
  then have "\<not> np_lt (col_t T ! i) (Some (M + 1))"
    using searchsorted_sorted(3) [OF ord, of "Some (M + 1)"] assms(2) by (simp add: col_t_def)
  then show False using assms(3,4) by simp
qed

lemma from_start:
  assumes ord: "sorted_wrt (\<lambda>a b. \<not> np_lt b a) (col_t T)"
    and "col_t T ! i = Some v" and "f \<le> v"
  shows "searchsorted (col_t T) (Some f) \<le> i"
proof (rule ccontr)
  assume "\<not> searchsorted (col_t T) (Some f) \<le> i"
  then have "np_lt (col_t T ! i) (Some f)"
    using searchsorted_sorted(2) [OF ord, of "Some f"] by simp
  then show False using assms(2,3) by simp
qed

lemma length_filter_take_drop:
  "length (filter P (take k (drop a xs))) \<le> length (filter P xs)"
proof -
  have "xs = take a xs @ take k (drop a xs) @ drop k (drop a xs)"
    by (metis append_take_drop_id)
  then have "filter P xs
      = filter P (take a xs) @ filter P (take k (drop a xs)) @ filter P (drop k (drop a xs))"
    by (metis filter_append)
  then show ?thesis by simp
qed

lemma nan_eq_Some_iff: "nan_eq x (Some M) \<longleftrightarrow> x = Some M"
  by (cases x) auto

lemma size_step:
  assumes ord: "sorted_wrt (\<lambda>a b. \<not> np_lt b a) (col_t T)"
    and lab: "map fst T = [0..<length T]"
    and j: "j < length T" "col_t T ! j = Some X"
    and ubX: "\<forall>v. Some v \<in> set (col_t T) \<longrightarrow> v \<le> X"
    and fX: "f \<le> X"
    and sub: "sub = iloc_slice T (int (searchsorted (col_t T) (Some f)))
                (min (int (searchsorted (col_t T) (Some f)) + s) (int (length T)))"
  shows "sub = [] \<longrightarrow> s \<le> 0"
    and "sub \<noteq> [] \<longrightarrow> (\<exists>M. py_max (col_t sub) = Inr (Some M) \<and> f \<le> M \<and> M \<le> X \<and>
       (\<forall>b. b = (if f = M then filter (\<lambda>ir. nan_eq (rec_t (snd ir)) (Some M)) T else sub) \<longrightarrow>
          b \<noteq> [] \<and> set b \<subseteq> set T \<and> distinct (map fst b) \<and>
          (\<forall>i\<in>set (map fst b). searchsorted (col_t T) (Some f) \<le> i) \<and>
          (M < X \<longrightarrow> (\<forall>i\<in>set (map fst b). i < searchsorted (col_t T) (Some (M + 1)))
                      \<and> s \<le> int (length b))))"
proof -
  let ?ts = "col_t T"
  let ?n = "length T"
  define a where "a = searchsorted ?ts (Some f)"
  have len: "length ?ts = ?n" by (simp add: col_t_def)
  have aj: "a \<le> j" unfolding a_def by (rule start_position(1) [OF ord j fX])
  then have an: "a < ?n" using j(1) by simp
  obtain v0 where v0: "?ts ! a = Some v0" "f \<le> v0"
    using start_position(2) [OF ord j fX] unfolding a_def by blast
  obtain k where k: "sub = take k (drop a T)" "a + k \<le> ?n"
    "1 \<le> s \<and> a < ?n \<longrightarrow> 1 \<le> k" "a + k < ?n \<longrightarrow> s \<le> int k"
    using iloc_slice_from [of a T s] an unfolding sub a_def by auto
  have lsub: "length sub = k" using k(2) by (simp add: k(1))
  show "sub = [] \<longrightarrow> s \<le> 0"
  proof
    assume "sub = []"
    then have "k = 0" using lsub by simp
    then show "s \<le> 0" using k(3) an by auto
  qed
  show "sub \<noteq> [] \<longrightarrow> (\<exists>M. py_max (col_t sub) = Inr (Some M) \<and> f \<le> M \<and> M \<le> X \<and>
       (\<forall>b. b = (if f = M then filter (\<lambda>ir. nan_eq (rec_t (snd ir)) (Some M)) T else sub) \<longrightarrow>
          b \<noteq> [] \<and> set b \<subseteq> set T \<and> distinct (map fst b) \<and>
          (\<forall>i\<in>set (map fst b). searchsorted (col_t T) (Some f) \<le> i) \<and>
          (M < X \<longrightarrow> (\<forall>i\<in>set (map fst b). i < searchsorted (col_t T) (Some (M + 1)))
                      \<and> s \<le> int (length b))))"
  proof
    assume ne: "sub \<noteq> []"
    then have k1: "1 \<le> k" using lsub by (cases k) auto
    have labs: "map fst sub = [a..<a + k]"
      using labels_take_drop [OF lab, of k a] k(2) by (simp add: k(1) min_def)
    have csub: "col_t sub = take k (drop a ?ts)"
      by (simp add: k(1) col_t_def take_map drop_map)
    have nth_sub: "col_t sub ! m = ?ts ! (a + m)" if "m < k" for m
      using that k(2) len by (simp add: csub)
    have lcs: "length (col_t sub) = k" using lsub by (simp add: col_t_def)
    have in_sub: "?ts ! m \<in> set (col_t sub)" if "a \<le> m" "m < a + k" for m
    proof -
      have "m - a < k" using that by simp
      then have "col_t sub ! (m - a) \<in> set (col_t sub)" using lcs by simp
      moreover have "col_t sub ! (m - a) = ?ts ! m"
        using nth_sub [of "m - a"] that by simp
      ultimately show ?thesis by simp
    qed
    have sub_T: "set (col_t sub) \<subseteq> set ?ts"
      unfolding csub by (meson set_take_subset set_drop_subset subset_trans)
    obtain rest where hd: "col_t sub = Some v0 # rest"
    proof (cases "col_t sub")
      case Nil
      then show ?thesis using lcs k1 by simp
    next
      case (Cons y ys)
      have "y = col_t sub ! 0" by (simp add: Cons)
      also have "\<dots> = Some v0" using nth_sub [of 0] k1 v0(1) by simp
      finally show ?thesis using Cons that by simp
    qed
    obtain M where M: "py_max (col_t sub) = Inr (Some M)" "v0 \<le> M"
      "Some M \<in> set (col_t sub)" "\<forall>v. Some v \<in> set (col_t sub) \<longrightarrow> v \<le> M"
      using py_max_sub [OF hd] by blast
    have fM: "f \<le> M" using v0(2) M(2) by simp
    have MX: "M \<le> X" using M(3) sub_T ubX by blast
    have rows: "\<exists>v. ?ts ! m = Some v \<and> f \<le> v \<and> v \<le> M \<and> m < searchsorted ?ts (Some (M + 1))"
      if lt: "M < X" and m: "a \<le> m" "m < a + k" for m
    proof -
      have "\<not> j < a + k"
      proof
        assume "j < a + k"
        then have "Some X \<in> set (col_t sub)" using in_sub [OF aj] j(2) by simp
        then show False using M(4) lt by auto
      qed
      then have mj: "m < j" using m(2) by simp
      have "\<not> np_lt (?ts ! j) (?ts ! m)"
        using sorted_wrt_nth_less [OF ord mj] j(1) len by simp
      then obtain v where v: "?ts ! m = Some v"
        using j(2) by (cases "?ts ! m") auto
      have vM: "v \<le> M" using in_sub [OF m] M(4) v by simp
      have "\<not> np_lt (?ts ! m) (Some f)"
        using searchsorted_sorted(3) [OF ord, of "Some f"] m(1) mj j(1) len
        unfolding a_def by simp
      then have fv: "f \<le> v" using v by simp
      have "m < ?n" using mj j(1) by simp
      then have "m < searchsorted ?ts (Some (M + 1))"
        using below_next [OF ord _ v vM] by simp
      then show ?thesis using v fv vM by simp
    qed
    have size: "s \<le> int k" if "M < X"
    proof -
      have "\<not> j < a + k"
      proof
        assume "j < a + k"
        then have "Some X \<in> set (col_t sub)" using in_sub [OF aj] j(2) by simp
        then show False using M(4) that by auto
      qed
      then show ?thesis using k(4) j(1) by simp
    qed
    have good: "b \<noteq> [] \<and> set b \<subseteq> set T \<and> distinct (map fst b) \<and>
          (\<forall>i\<in>set (map fst b). searchsorted ?ts (Some f) \<le> i) \<and>
          (M < X \<longrightarrow> (\<forall>i\<in>set (map fst b). i < searchsorted ?ts (Some (M + 1)))
                      \<and> s \<le> int (length b))"
      if b: "b = (if f = M then filter (\<lambda>ir. nan_eq (rec_t (snd ir)) (Some M)) T else sub)"
      for b
    proof (cases "f = M")
      case False
      then have bs: "b = sub" using b by simp
      have 1: "set sub \<subseteq> set T"
        unfolding k(1) by (meson set_take_subset set_drop_subset subset_trans)
      have 2: "distinct (map fst sub)" by (simp add: labs)
      have 3: "\<forall>i\<in>set (map fst sub). searchsorted ?ts (Some f) \<le> i"
        by (simp add: labs a_def [symmetric])
      have 4: "\<forall>i\<in>set (map fst sub). i < searchsorted ?ts (Some (M + 1))" if "M < X"
      proof
        fix i assume "i \<in> set (map fst sub)"
        then have "a \<le> i" "i < a + k" by (simp_all add: labs)
        from rows [OF that this] show "i < searchsorted ?ts (Some (M + 1))" by blast
      qed
      show ?thesis unfolding bs using ne 1 2 3 4 size lsub by simp
    next
      case True
      let ?P = "\<lambda>ir. nan_eq (rec_t (snd ir)) (Some M)"
      have bs: "b = filter ?P T" using b True by simp
      have vM: "v0 = M" using v0(2) M(2) True by simp
      have Ta: "T ! a \<in> set T" using an by simp
      have "rec_t (snd (T ! a)) = Some M"
        using v0(1) an by (simp add: col_t_def vM)
      then have 0: "filter ?P T \<noteq> []"
        using Ta by (auto simp: filter_empty_conv nan_eq_Some_iff)
      have 2: "distinct (map fst (filter ?P T))"
        using lab by (intro distinct_map_filter) simp
      have mem: "fst ir < ?n \<and> ?ts ! fst ir = Some M" if "ir \<in> set (filter ?P T)" for ir
      proof -
        have ir: "ir \<in> set T" "rec_t (snd ir) = Some M"
          using that by (simp_all add: nan_eq_Some_iff)
        have "fst ir < ?n \<and> T ! fst ir = ir" using labelled_mem [OF lab ir(1)] .
        then show ?thesis using ir(2) by (simp add: col_t_def)
      qed
      have 3: "\<forall>i\<in>set (map fst (filter ?P T)). searchsorted ?ts (Some f) \<le> i"
      proof
        fix i assume "i \<in> set (map fst (filter ?P T))"
        then obtain ir where "ir \<in> set (filter ?P T)" "i = fst ir" by auto
        then have "?ts ! i = Some M" using mem by simp
        then show "searchsorted ?ts (Some f) \<le> i" using from_start [OF ord _ fM] by simp
      qed
      have 4: "\<forall>i\<in>set (map fst (filter ?P T)). i < searchsorted ?ts (Some (M + 1))"
      proof
        fix i assume "i \<in> set (map fst (filter ?P T))"
        then obtain ir where "ir \<in> set (filter ?P T)" "i = fst ir" by auto
        then have "i < ?n" "?ts ! i = Some M" using mem by simp_all
        then show "i < searchsorted ?ts (Some (M + 1))"
          using below_next [OF ord, of i M M] by simp
      qed
      have 5: "s \<le> int (length (filter ?P T))" if lt: "M < X"
      proof -
        have "?P ir" if "ir \<in> set sub" for ir
        proof -
          have "fst ir \<in> set (map fst sub)" using that by simp
          then have m: "a \<le> fst ir" "fst ir < a + k" by (simp_all add: labs)
          have "ir \<in> set T" using that unfolding k(1)
            by (meson in_set_takeD in_set_dropD)
          then have "T ! fst ir = ir" using labelled_mem [OF lab] by simp
          moreover obtain v where "?ts ! fst ir = Some v" "f \<le> v" "v \<le> M"
            using rows [OF lt m] by blast
          ultimately show ?thesis using True m(2) k(2) by (simp add: col_t_def)
        qed
        then have "filter ?P sub = sub" by (simp add: filter_id_conv)
        then have "length sub \<le> length (filter ?P T)"
          using length_filter_take_drop [of ?P k a T] by (simp add: k(1) [symmetric])
        then show ?thesis using size [OF lt] lsub by simp
      qed
      show ?thesis unfolding bs using 0 2 3 4 5 by auto
    qed
    show "\<exists>M. py_max (col_t sub) = Inr (Some M) \<and> f \<le> M \<and> M \<le> X \<and>
       (\<forall>b. b = (if f = M then filter (\<lambda>ir. nan_eq (rec_t (snd ir)) (Some M)) T else sub) \<longrightarrow>
          b \<noteq> [] \<and> set b \<subseteq> set T \<and> distinct (map fst b) \<and>
          (\<forall>i\<in>set (map fst b). searchsorted (col_t T) (Some f) \<le> i) \<and>
          (M < X \<longrightarrow> (\<forall>i\<in>set (map fst b). i < searchsorted (col_t T) (Some (M + 1)))
                      \<and> s \<le> int (length b)))"
      using M(1) fM MX good by blast
  qed
qed

lemma searchsorted_mono:
  assumes ord: "sorted_wrt (\<lambda>a b. \<not> np_lt b a) arr" and "f \<le> g"
  shows "searchsorted arr (Some f) \<le> searchsorted arr (Some g)"
proof (rule ccontr)
  let ?a = "searchsorted arr (Some f)"
  let ?b = "searchsorted arr (Some g)"
  assume "\<not> ?a \<le> ?b"
  then have lt: "?b < ?a" by simp
  then have "np_lt (arr ! ?b) (Some f)" using searchsorted_sorted(2) [OF ord, of "Some f"] by simp
  then have "np_lt (arr ! ?b) (Some g)" using assms(2) by (auto simp: np_lt_Some_iff)
  moreover have "?b < length arr" using lt searchsorted_sorted(1) [OF ord, of "Some f"] by simp
  then have "\<not> np_lt (arr ! ?b) (Some g)"
    using searchsorted_sorted(3) [OF ord, of "Some g"] by simp
  ultimately show False by simp
qed

lemma bins_from_Cons:
  assumes b: "b \<noteq> []" "set b \<subseteq> set T" "distinct (map fst b)" "\<forall>i\<in>set (map fst b). a \<le> i"
    and rest: "bins_from T s a' bins" and "a \<le> a'"
    and sep: "bins \<noteq> [] \<longrightarrow> (\<forall>i\<in>set (map fst b). i < a') \<and> s \<le> int (length b)"
  shows "bins_from T s a (b # bins)"
proof -
  have lab: "\<forall>c\<in>set bins. \<forall>i\<in>set (map fst c). a' \<le> i"
    using rest by (simp add: bins_from_def)
  have disj: "set (map fst b) \<inter> set (concat (map (map fst) bins)) = {}"
  proof (cases "bins = []")
    case True
    then show ?thesis by simp
  next
    case False
    then have "\<forall>i\<in>set (map fst b). i < a'" using sep by simp
    moreover have "\<forall>i\<in>set (concat (map (map fst) bins)). a' \<le> i" using lab by auto
    ultimately show ?thesis by fastforce
  qed
  have 1: "distinct (concat (map (map fst) (b # bins)))"
    using b(3) rest disj by (simp add: bins_from_def)
  have 2: "\<forall>c\<in>set (b # bins). c \<noteq> [] \<and> set c \<subseteq> set T \<and> (\<forall>i\<in>set (map fst c). a \<le> i)"
    using b rest assms(6) by (fastforce simp: bins_from_def)
  have 3: "\<forall>c\<in>set (butlast (b # bins)). s \<le> int (length c)"
    using rest sep by (simp add: bins_from_def)
  show ?thesis unfolding bins_from_def using 1 2 3 by blast
qed

lemma equal_size_loop_unfold:
  assumes "py_max (col_t T) = Inr (Some X)"
  shows "equal_size_loop row_of T s (Some f) (Some u) ai acc =
     (if u < X \<and> ai + s \<le> int (length T) then
        (case py_max (col_t (iloc_slice T (int (searchsorted (col_t T) (Some f)))
                (min (int (searchsorted (col_t T) (Some f)) + s) (int (length T))))) of
           Inl e \<Rightarrow> Some (Inl e)
         | Inr to_t' \<Rightarrow>
             (case row_of
                    (if nan_eq (Some f) to_t'
                     then filter (\<lambda>ir. nan_eq (rec_t (snd ir)) to_t') T
                     else iloc_slice T (int (searchsorted (col_t T) (Some f)))
                            (min (int (searchsorted (col_t T) (Some f)) + s) (int (length T)))) of
                Inl e \<Rightarrow> Some (Inl e)
              | Inr r \<Rightarrow>
                  equal_size_loop row_of T s (nan_add to_t' 1) to_t'
                    (int (searchsorted (col_t T) (Some f))) (acc @ [r])))
      else Some (Inr acc))"
  by (subst equal_size_loop.simps) (simp add: assms)

lemma equal_size_loop_sorted:
  assumes ord: "sorted_wrt (\<lambda>a b. \<not> np_lt b a) (col_t T)"
    and lab: "map fst T = [0..<length T]"
    and j: "j < length T" "col_t T ! j = Some X"
    and ubX: "\<forall>v. Some v \<in> set (col_t T) \<longrightarrow> v \<le> X"
    and mx: "py_max (col_t T) = Inr (Some X)"
  shows "f \<le> u + 1 \<Longrightarrow>
    \<exists>r. equal_size_loop Inr T s (Some f) (Some u) ai acc = Some r \<and>
      (case r of
         Inl e \<Rightarrow> s \<le> 0
       | Inr out \<Rightarrow> \<exists>bins. out = acc @ bins \<and> (\<not> u < X \<longrightarrow> bins = [])
                      \<and> bins_from T s (searchsorted (col_t T) (Some f)) bins)"
proof (induction "nat (X + 1 - f)" arbitrary: f u ai acc rule: less_induct)
  case less
  let ?ts = "col_t T"
  let ?a = "searchsorted ?ts (Some f)"
  define sub where "sub = iloc_slice T (int ?a) (min (int ?a + s) (int (length T)))"
  note unfold = equal_size_loop_unfold [OF mx, of Inr s f u ai acc, folded sub_def]
  show ?case
  proof (cases "u < X \<and> ai + s \<le> int (length T)")
    case False
    have "equal_size_loop Inr T s (Some f) (Some u) ai acc = Some (Inr acc)"
      unfolding unfold by (simp only: False if_False)
    moreover have "bins_from T s ?a []" by (simp add: bins_from_def)
    ultimately show ?thesis using False by auto
  next
    case True
    then have fX: "f \<le> X" using less.prems by simp
    note step = size_step [OF ord lab j ubX fX sub_def]
    show ?thesis
    proof (cases "sub = []")
      case Nil: True
      then have "equal_size_loop Inr T s (Some f) (Some u) ai acc = Some (Inl ValueError)"
        unfolding unfold using True by (simp add: col_t_def)
      then show ?thesis using step(1) Nil by simp
    next
      case ne: False
      obtain M where M: "py_max (col_t sub) = Inr (Some M)" "f \<le> M" "M \<le> X"
        and good: "\<And>b. b = (if f = M then filter (\<lambda>ir. nan_eq (rec_t (snd ir)) (Some M)) T
                              else sub) \<Longrightarrow>
          b \<noteq> [] \<and> set b \<subseteq> set T \<and> distinct (map fst b) \<and>
          (\<forall>i\<in>set (map fst b). ?a \<le> i) \<and>
          (M < X \<longrightarrow> (\<forall>i\<in>set (map fst b). i < searchsorted ?ts (Some (M + 1)))
                      \<and> s \<le> int (length b))"
        using step(2) ne by blast
      define b where
        "b = (if f = M then filter (\<lambda>ir. nan_eq (rec_t (snd ir)) (Some M)) T else sub)"
      note gb = good [OF b_def]
      have eq: "equal_size_loop Inr T s (Some f) (Some u) ai acc
          = equal_size_loop Inr T s (Some (M + 1)) (Some M) (int ?a) (acc @ [b])"
        unfolding unfold using True by (simp add: M(1) b_def)
      have dec: "nat (X + 1 - (M + 1)) < nat (X + 1 - f)" using M(2,3) by simp
      obtain r where r: "equal_size_loop Inr T s (Some (M + 1)) (Some M) (int ?a) (acc @ [b])
            = Some r"
        and post: "case r of
           Inl e \<Rightarrow> s \<le> 0
         | Inr out \<Rightarrow> \<exists>bins. out = (acc @ [b]) @ bins \<and> (\<not> M < X \<longrightarrow> bins = [])
                      \<and> bins_from T s (searchsorted ?ts (Some (M + 1))) bins"
        using less.hyps [OF dec, of M "int ?a" "acc @ [b]"] by auto
      show ?thesis
      proof (cases r)
        case (Inl e)
        then show ?thesis using eq r post by simp
      next
        case (Inr out)
        then obtain bins where bins: "out = (acc @ [b]) @ bins" "\<not> M < X \<longrightarrow> bins = []"
          "bins_from T s (searchsorted ?ts (Some (M + 1))) bins"
          using post by auto
        have mono: "?a \<le> searchsorted ?ts (Some (M + 1))"
          using searchsorted_mono [OF ord, of f "M + 1"] M(2) by simp
        have sep: "bins \<noteq> [] \<longrightarrow> (\<forall>i\<in>set (map fst b). i < searchsorted ?ts (Some (M + 1)))
              \<and> s \<le> int (length b)"
          using bins(2) gb by blast
        have "bins_from T s ?a (b # bins)"
          using bins_from_Cons [OF _ _ _ _ bins(3) mono sep] gb by blast
        moreover have "out = acc @ (b # bins)" using bins(1) by simp
        ultimately show ?thesis using eq r Inr True by auto
      qed
    qed
  qed
qed

lemma equal_size_bins_sorted:
  assumes "ordered_by_t tab"
  shows "\<exists>r. equal_size_bins tab s = Some r \<and>
     (case r of
        Inl e \<Rightarrow> tab = [] \<or> s \<le> 0
      | Inr bins \<Rightarrow> \<exists>a. bins_from (reset_index tab) s a bins)"
proof -
  let ?T = "reset_index tab"
  have ct: "col_t ?T = col_t tab" by (rule col_t_reset_index)
  have ord: "sorted_wrt (\<lambda>a b. \<not> np_lt b a) (col_t ?T)"
    using assms by (simp add: ordered_by_t_def ct)
  have lab: "map fst ?T = [0..<length ?T]"
    by (simp add: labels_reset_index length_reset_index)
  have run: "equal_size_bins tab s = equal_size_loop Inr ?T s (Some 0) (Some 0) 0 []"
    by (simp add: equal_size_bins_def equal_size_run_def)
  show ?thesis
  proof (cases "col_t ?T")
    case Nil
    then have "col_t tab = []" using ct by simp
    then have "tab = []" by (simp add: col_t_def)
    moreover have "equal_size_bins tab s = Some (Inl ValueError)"
      unfolding run by (subst equal_size_loop.simps) (simp add: Nil)
    ultimately show ?thesis by simp
  next
    case (Cons y ys)
    show ?thesis
    proof (cases y)
      case None
      have "py_max (col_t ?T) = Inr None" unfolding Cons None by (rule py_max_None)
      then have "equal_size_bins tab s = Some (Inr [])"
        unfolding run by (subst equal_size_loop.simps) simp
      moreover have "bins_from ?T s 0 []" by (simp add: bins_from_def)
      ultimately show ?thesis by auto
    next
      case (Some x)
      obtain X where X: "py_max (col_t ?T) = Inr (Some X)" "Some X \<in> set (col_t ?T)"
        "\<forall>v. Some v \<in> set (col_t ?T) \<longrightarrow> v \<le> X"
        using py_max_sub [of ?T x ys] Cons Some by auto
      obtain j where j: "j < length ?T" "col_t ?T ! j = Some X"
        using X(2) by (auto simp: in_set_conv_nth col_t_def)
      have "(0::int) \<le> 0 + 1" by simp
      from equal_size_loop_sorted [OF ord lab j X(3) X(1) this, of s 0 "[]"]
      obtain r where r: "equal_size_loop Inr ?T s (Some 0) (Some 0) 0 [] = Some r"
        and post: "case r of Inl e \<Rightarrow> s \<le> 0
           | Inr out \<Rightarrow> \<exists>bins. out = [] @ bins \<and> (\<not> 0 < X \<longrightarrow> bins = [])
                \<and> bins_from ?T s (searchsorted (col_t ?T) (Some 0)) bins"
        by blast
      show ?thesis
      proof (cases r)
        case (Inl e)
        then show ?thesis using r post run by simp
      next
        case (Inr out)
        then show ?thesis using r post run by auto
      qed
    qed
  qed
qed

lemma undersized_at_most_one:
  assumes "\<forall>b\<in>set (butlast bins). s \<le> int (length b)"
  shows "length (filter (\<lambda>b. int (length b) < s) bins) \<le> 1"
proof (cases "bins = []")
  case True
  then show ?thesis by simp
next
  case False
  then have "bins = butlast bins @ [last bins]" by simp
  then have "filter (\<lambda>b. int (length b) < s) bins
      = filter (\<lambda>b. int (length b) < s) (butlast bins)
        @ filter (\<lambda>b. int (length b) < s) [last bins]"
    by (metis filter_append)
  moreover have "filter (\<lambda>b. int (length b) < s) (butlast bins) = []"
    using assms by (auto simp: filter_empty_conv)
  ultimately show ?thesis by simp
qed

text \<open>
  Claim C10. On a table ordered by \<^verbatim>\<open>t\<close>, the fixed-size binner returns, for every size,
  and no row is in two of its bins: the labels of the rows of all bins (the positions in
  the table, after \<^verbatim>\<open>reset_index\<close>) are distinct, and every bin is made of rows of the
  table. The run raises only on an empty table or with a size below 1.
\<close>

theorem equal_size_bins_disjoint:
  assumes "ordered_by_t tab"
  shows "\<exists>r. equal_size_bins tab s = Some r \<and>
     (case r of
        Inl e \<Rightarrow> tab = [] \<or> s \<le> 0
      | Inr bins \<Rightarrow> distinct (concat (map (map fst) bins)) \<and>
                    (\<forall>b\<in>set bins. set b \<subseteq> set (reset_index tab)))"
proof -
  obtain r where r: "equal_size_bins tab s = Some r"
    and post: "case r of Inl e \<Rightarrow> tab = [] \<or> s \<le> 0
               | Inr bins \<Rightarrow> \<exists>a. bins_from (reset_index tab) s a bins"
    using equal_size_bins_sorted [OF assms] by blast
  show ?thesis
  proof (cases r)
    case (Inl e)
    then show ?thesis using r post by simp
  next
    case (Inr bins)
    then show ?thesis using r post by (auto simp: bins_from_def)
  qed
qed

theorem equal_size_bins_disjoint_witness:
  "map_option (map_sum id (map (map fst)))
     (equal_size_bins (table_of [(0, ''''), (0, ''a''), (0, ''''), (5, ''''), (6, ''a''),
        (7, ''''), (7, '''')]) 2)
   = Some (Inr [[0, 1, 2], [3, 4], [5, 6]]) \<and>
   distinct (concat [[0::nat, 1, 2], [3, 4], [5, 6]])"
proof -
  let ?T = "table_of [(0, ''''), (0, ''a''), (0, ''''), (5, ''''), (6, ''a''),
        (7, ''''), (7, '''')]"
  have h: "ordered_by_t ?T" by (simp add: ordered_by_t_def table_of_def col_t_def)
  have e: "map_option (map_sum id (map (map fst))) (equal_size_bins ?T 2)
     = Some (Inr [[0, 1, 2], [3, 4], [5, 6]])"
    by (simp add: equal_size_bins_def run_simps)
  from equal_size_bins_disjoint [OF h, of 2] obtain r where
    "equal_size_bins ?T 2 = Some r"
    "case r of Inl e \<Rightarrow> ?T = [] \<or> (2::int) \<le> 0
     | Inr bins \<Rightarrow> distinct (concat (map (map fst) bins)) \<and>
                    (\<forall>b\<in>set bins. set b \<subseteq> set (reset_index ?T))"
    by blast
  with e show ?thesis by (cases r) auto
qed

text \<open>
  Claim C4. On a table ordered by \<^verbatim>\<open>t\<close>, with a size of at least 1, the fixed-size
  binner returns; it raises only on the empty table. Of the bins it emits, every one but
  the last has at least \<open>s\<close> rows, and so at most one bin has fewer than \<open>s\<close> rows.
\<close>

theorem equal_size_bins_sizes:
  assumes "ordered_by_t tab" and "1 \<le> s"
  shows "\<exists>r. equal_size_bins tab s = Some r \<and>
     (case r of
        Inl e \<Rightarrow> tab = []
      | Inr bins \<Rightarrow> (\<forall>b\<in>set (butlast bins). s \<le> int (length b)) \<and>
                    length (filter (\<lambda>b. int (length b) < s) bins) \<le> 1)"
proof -
  obtain r where r: "equal_size_bins tab s = Some r"
    and post: "case r of Inl e \<Rightarrow> tab = [] \<or> s \<le> 0
               | Inr bins \<Rightarrow> \<exists>a. bins_from (reset_index tab) s a bins"
    using equal_size_bins_sorted [OF assms(1)] by blast
  show ?thesis
  proof (cases r)
    case (Inl e)
    then show ?thesis using r post assms(2) by simp
  next
    case (Inr bins)
    then have "\<forall>b\<in>set (butlast bins). s \<le> int (length b)"
      using post by (auto simp: bins_from_def)
    then show ?thesis using r Inr undersized_at_most_one [of bins s] by simp
  qed
qed

theorem equal_size_bins_sizes_witness:
  "map_option (map_sum id (map (map fst)))
     (equal_size_bins (table_of [(7, ''''), (7, ''a''), (7, ''''), (7, ''''), (7, ''a''),
        (8, ''''), (9, '''')]) 3)
   = Some (Inr [[0, 1, 2], [5, 6]]) \<and>
   map_option (map_sum id (map (map fst)))
     (equal_size_bins (table_of [(0, ''''), (0, ''a''), (0, ''''), (5, ''''), (6, ''a''),
        (7, ''''), (7, '''')]) 2)
   = Some (Inr [[0, 1, 2], [3, 4], [5, 6]])"
proof -
  let ?T = "table_of [(7, ''''), (7, ''a''), (7, ''''), (7, ''''), (7, ''a''),
        (8, ''''), (9, '''')]"
  have h1: "ordered_by_t ?T" by (simp add: ordered_by_t_def table_of_def col_t_def)
  have h2: "(1::int) \<le> 3" by simp
  have e: "map_option (map_sum id (map (map fst))) (equal_size_bins ?T 3)
     = Some (Inr [[0, 1, 2], [5, 6]])"
    by (simp add: equal_size_bins_def run_simps)
  have e2: "map_option (map_sum id (map (map fst)))
     (equal_size_bins (table_of [(0, ''''), (0, ''a''), (0, ''''), (5, ''''), (6, ''a''),
        (7, ''''), (7, '''')]) 2)
   = Some (Inr [[0, 1, 2], [3, 4], [5, 6]])"
    by (simp add: equal_size_bins_def run_simps)
  from equal_size_bins_sizes [OF h1 h2] obtain r where
    "equal_size_bins ?T 3 = Some r" by blast
  with e e2 show ?thesis by simp
qed

section \<open>The rows of a run are the rows of its bins\<close>

text \<open>
  A run that returns rows has gone through the bins that the same loop hands back when
  asked for the windows, and its rows are their rows, in the same order.
\<close>

lemma equal_days_loop_link:
  assumes "equal_days_loop row_of tab days from_t to_t acc = Some y"
  shows "\<forall>out acc'. y = Inr out \<longrightarrow>
     (\<exists>bins rows. equal_days_loop Inr tab days from_t to_t acc' = Some (Inr (acc' @ bins))
        \<and> out = acc @ rows \<and> list_all2 (\<lambda>b r. row_of b = Inr r) bins rows)"
proof (rule equal_days_loop.raw_induct
    [where P = "\<lambda>row_of tab days from_t to_t acc y. \<forall>out acc'. y = Inr out \<longrightarrow>
     (\<exists>bins rows. equal_days_loop Inr tab days from_t to_t acc' = Some (Inr (acc' @ bins))
        \<and> out = acc @ rows \<and> list_all2 (\<lambda>b r. row_of b = Inr r) bins rows)", OF _ assms],
    goal_cases)
  case (1 loop row_of tab days from_t to_t acc y)
  show ?case
  proof (intro allI impI)
    fix out acc' assume y: "y = Inr out"
    let ?w = "filter (\<lambda>ir. nan_le from_t (rec_t (snd ir)) \<and> nan_le (rec_t (snd ir)) to_t) tab"
    obtain mx where mx: "py_max (col_t tab) = Inr mx"
      using 1(2) y by (cases "py_max (col_t tab)") auto
    show "\<exists>bins rows. equal_days_loop Inr tab days from_t to_t acc' = Some (Inr (acc' @ bins))
        \<and> out = acc @ rows \<and> list_all2 (\<lambda>b r. row_of b = Inr r) bins rows"
    proof (cases "nan_lt to_t mx")
      case False
      have "out = acc" using 1(2) y mx False by simp
      moreover have "equal_days_loop Inr tab days from_t to_t acc' = Some (Inr acc')"
        by (subst equal_days_loop.simps) (simp add: mx False)
      ultimately show ?thesis by auto
    next
      case True
      show ?thesis
      proof (cases "?w = []")
        case empty: True
        have "loop row_of tab days (nan_add from_t days) (nan_add to_t days) acc = Some (Inr out)"
          using 1(2) y mx True empty by simp
        from 1(1) [OF this, rule_format, OF refl, of acc'] obtain bins rows where
          br: "equal_days_loop Inr tab days (nan_add from_t days) (nan_add to_t days) acc'
                 = Some (Inr (acc' @ bins))"
            "out = acc @ rows" "list_all2 (\<lambda>b r. row_of b = Inr r) bins rows"
          by blast
        have "equal_days_loop Inr tab days from_t to_t acc' = Some (Inr (acc' @ bins))"
          by (subst equal_days_loop.simps) (simp add: mx True empty br(1))
        then show ?thesis using br(2,3) by blast
      next
        case ne: False
        obtain r where r: "row_of ?w = Inr r"
          using 1(2) y mx True ne by (cases "row_of ?w") auto
        have "loop row_of tab days (nan_add from_t days) (nan_add to_t days) (acc @ [r])
            = Some (Inr out)"
          using 1(2) y mx True ne r by simp
        from 1(1) [OF this, rule_format, OF refl, of "acc' @ [?w]"] obtain bins rows where
          br: "equal_days_loop Inr tab days (nan_add from_t days) (nan_add to_t days) (acc' @ [?w])
                 = Some (Inr ((acc' @ [?w]) @ bins))"
            "out = (acc @ [r]) @ rows" "list_all2 (\<lambda>b r. row_of b = Inr r) bins rows"
          by blast
        have "equal_days_loop Inr tab days from_t to_t acc' = Some (Inr (acc' @ (?w # bins)))"
          by (subst equal_days_loop.simps) (simp add: mx True ne br(1))
        moreover have "out = acc @ (r # rows)" using br(2) by simp
        moreover have "list_all2 (\<lambda>b r. row_of b = Inr r) (?w # bins) (r # rows)"
          using r br(3) by simp
        ultimately show ?thesis by blast
      qed
    qed
  qed
qed

lemma equal_size_loop_link:
  assumes "equal_size_loop row_of tab s from_t to_t ai acc = Some y"
  shows "\<forall>out acc'. y = Inr out \<longrightarrow>
     (\<exists>bins rows. equal_size_loop Inr tab s from_t to_t ai acc' = Some (Inr (acc' @ bins))
        \<and> out = acc @ rows \<and> list_all2 (\<lambda>b r. row_of b = Inr r) bins rows)"
proof (rule equal_size_loop.raw_induct
    [where P = "\<lambda>row_of tab s from_t to_t ai acc y. \<forall>out acc'. y = Inr out \<longrightarrow>
     (\<exists>bins rows. equal_size_loop Inr tab s from_t to_t ai acc' = Some (Inr (acc' @ bins))
        \<and> out = acc @ rows \<and> list_all2 (\<lambda>b r. row_of b = Inr r) bins rows)", OF _ assms],
    goal_cases)
  case (1 loop row_of tab s from_t to_t ai acc y)
  show ?case
  proof (intro allI impI)
    fix out acc' assume y: "y = Inr out"
    let ?a = "int (searchsorted (col_t tab) from_t)"
    let ?sub = "iloc_slice tab ?a (min (?a + s) (int (length tab)))"
    obtain mx where mx: "py_max (col_t tab) = Inr mx"
      using 1(2) y by (cases "py_max (col_t tab)") auto
    show "\<exists>bins rows. equal_size_loop Inr tab s from_t to_t ai acc' = Some (Inr (acc' @ bins))
        \<and> out = acc @ rows \<and> list_all2 (\<lambda>b r. row_of b = Inr r) bins rows"
    proof (cases "nan_lt to_t mx \<and> ai + s \<le> int (length tab)")
      case False
      have "out = acc" using 1(2) y mx False by (simp split: if_splits)
      moreover have "equal_size_loop Inr tab s from_t to_t ai acc' = Some (Inr acc')"
        by (subst equal_size_loop.simps) (simp only: mx sum.case False if_False)
      ultimately show ?thesis by auto
    next
      case True
      obtain to' where to': "py_max (col_t ?sub) = Inr to'"
        using 1(2) y mx True by (cases "py_max (col_t ?sub)") auto
      let ?b = "if nan_eq from_t to' then filter (\<lambda>ir. nan_eq (rec_t (snd ir)) to') tab
                else ?sub"
      obtain r where r: "row_of ?b = Inr r"
        using 1(2) y mx True to' by (cases "row_of ?b") auto
      have "loop row_of tab s (nan_add to' 1) to' ?a (acc @ [r]) = Some (Inr out)"
        using 1(2) y mx True to' r by simp
      from 1(1) [OF this, rule_format, OF refl, of "acc' @ [?b]"] obtain bins rows where
        br: "equal_size_loop Inr tab s (nan_add to' 1) to' ?a (acc' @ [?b])
               = Some (Inr ((acc' @ [?b]) @ bins))"
          "out = (acc @ [r]) @ rows" "list_all2 (\<lambda>b r. row_of b = Inr r) bins rows"
        by blast
      have "equal_size_loop Inr tab s from_t to_t ai acc' = Some (Inr (acc' @ (?b # bins)))"
        using True by (subst equal_size_loop.simps) (simp add: mx to' br(1))
      moreover have "out = acc @ (r # rows)" using br(2) by simp
      moreover have "list_all2 (\<lambda>b r. row_of b = Inr r) (?b # bins) (r # rows)"
        using r br(3) by simp
      ultimately show ?thesis by blast
    qed
  qed
qed

lemma binning_equal_days_bins:
  assumes "binning_equal_days minimize t_dtype tab days = Some (Inr rows)"
  shows "\<exists>bins. equal_days_bins tab days = Some (Inr bins) \<and>
           list_all2 (\<lambda>b r. attrs_of minimize t_dtype (''eq_days_'' @ str days) b = Inr r) bins rows"
proof -
  obtain from_t where mn: "py_min (col_t tab) = Inr from_t"
    and run: "equal_days_loop (attrs_of minimize t_dtype (''eq_days_'' @ str days)) tab days from_t
        (nan_add (nan_add from_t days) (- 1)) [] = Some (Inr rows)"
    using assms by (auto simp: binning_equal_days_def equal_days_run_def split: sum.splits)
  from equal_days_loop_link [OF run, rule_format, OF refl, of "[]"]
  show ?thesis by (auto simp: equal_days_bins_def equal_days_run_def mn)
qed

lemma binning_equal_size_bins:
  assumes "binning_equal_size minimize t_dtype tab s = Some (Inr rows)"
  shows "\<exists>bins. equal_size_bins tab s = Some (Inr bins) \<and>
           list_all2 (\<lambda>b r. attrs_of minimize t_dtype (''eq_size_'' @ str s) b = Inr r) bins rows"
proof -
  have run: "equal_size_loop (attrs_of minimize t_dtype (''eq_size_'' @ str s)) (reset_index tab) s
        (Some 0) (Some 0) 0 [] = Some (Inr rows)"
    using assms by (simp add: binning_equal_size_def equal_size_run_def)
  from equal_size_loop_link [OF run, rule_format, OF refl, of "[]"]
  show ?thesis by (auto simp: equal_size_bins_def equal_size_run_def)
qed

end
